theory Spec2Isabelle
  imports Main "HOL-Library.Word"
begin

unbundle bit_operations_syntax

section \<open>Memory, byte ranges\<close>

text \<open>
  Raw memory is a function from addresses to bytes. An address is a natural number: a
  C++ object never wraps around the address space, so \<open>p + n\<close> on a pointer into an
  object of at least \<open>n\<close> bytes is the plain sum. \<open>nullptr\<close> as the result of a decoder is
  \<open>None\<close>.
\<close>

type_synonym byte = "8 word"
type_synonym addr = nat
type_synonym memory = "addr \<Rightarrow> byte"

text \<open>
  How an operation fails: an \<open>assert\<close> that does not hold, an access outside an object,
  and \<open>std::bad_alloc\<close> thrown by \<open>new\<close> and caught nowhere.
\<close>

datatype error = AssertionFailed | InvalidAccess | OutOfMemory

text \<open>\<open>class Slice\<close> (include/leveldb/slice.h): the fields \<open>data_\<close> and \<open>size_\<close>, a pointer and
  a size (a field name cannot end in an underscore here).\<close>

record Slice =
  Slice_data :: addr
  Slice_size :: nat

text \<open>\<open>Slice(const char* d, size_t n)\<close>.\<close>

definition Slice_of :: "addr \<Rightarrow> nat \<Rightarrow> Slice" where
  "Slice_of d n = \<lparr>Slice_data = d, Slice_size = n\<rparr>"

text \<open>\<open>Slice::remove_prefix\<close>: \<open>assert(n <= size())\<close>, then the view advances.\<close>

definition remove_prefix :: "Slice \<Rightarrow> nat \<Rightarrow> error + Slice" where
  "remove_prefix s n =
     (if n \<le> Slice_size s then Inr (s\<lparr>Slice_data := Slice_data s + n, Slice_size := Slice_size s - n\<rparr>)
      else Inl AssertionFailed)"

text \<open>The bytes a slice views, in order.\<close>

definition bytes_of :: "memory \<Rightarrow> Slice \<Rightarrow> byte list" where
  "bytes_of mem s = map mem [Slice_data s ..< Slice_data s + Slice_size s]"

section \<open>Varint codec (util/coding.cc)\<close>

text \<open>
  \<open>EncodeVarint32\<close>: the unrolled encoder. Every \<open>*(ptr++) = e\<close> stores the low eight
  bits of \<open>e\<close> (the target is a \<open>uint8_t\<close>) and advances \<open>ptr\<close>. The result is the memory
  after the stores and the returned pointer.
\<close>

definition EncodeVarint32 :: "memory \<Rightarrow> addr \<Rightarrow> 32 word \<Rightarrow> memory \<times> addr" where
  "EncodeVarint32 mem dst v =
     (let ptr = dst; B = (128 :: 32 word) in
      if v < push_bit 7 1 then
        (mem(ptr := ucast v), ptr + 1)
      else if v < push_bit 14 1 then
        (mem(ptr := ucast (v OR B), ptr + 1 := ucast (drop_bit 7 v)), ptr + 2)
      else if v < push_bit 21 1 then
        (mem(ptr := ucast (v OR B), ptr + 1 := ucast (drop_bit 7 v OR B),
             ptr + 2 := ucast (drop_bit 14 v)), ptr + 3)
      else if v < push_bit 28 1 then
        (mem(ptr := ucast (v OR B), ptr + 1 := ucast (drop_bit 7 v OR B),
             ptr + 2 := ucast (drop_bit 14 v OR B), ptr + 3 := ucast (drop_bit 21 v)), ptr + 4)
      else
        (mem(ptr := ucast (v OR B), ptr + 1 := ucast (drop_bit 7 v OR B),
             ptr + 2 := ucast (drop_bit 14 v OR B), ptr + 3 := ucast (drop_bit 21 v OR B),
             ptr + 4 := ucast (drop_bit 28 v)), ptr + 5))"

text \<open>\<open>EncodeVarint64\<close>: the loop \<open>while (v >= B) { *(ptr++) = v | B; v >>= 7; }\<close> and the
  final store.\<close>

function EncodeVarint64 :: "memory \<Rightarrow> addr \<Rightarrow> 64 word \<Rightarrow> memory \<times> addr" where
  "EncodeVarint64 mem ptr v =
     (if v \<ge> 128 then EncodeVarint64 (mem(ptr := ucast (v OR 128))) (ptr + 1) (drop_bit 7 v)
      else (mem(ptr := ucast v), ptr + 1))"
  by pat_completeness auto
termination
proof (relation "measure (\<lambda>(mem, ptr, v). unat v)")
  show "wf (measure (\<lambda>(mem, ptr, v). unat v))" by simp
next
  fix mem :: memory and ptr :: addr and v :: "64 word"
  assume "128 \<le> v"
  then have "128 \<le> unat v" by (simp add: word_le_nat_alt)
  then have "unat v div 128 < unat v" by simp
  then show "((mem(ptr := ucast (v OR 128)), ptr + 1, drop_bit 7 v), (mem, ptr, v))
               \<in> measure (\<lambda>(mem, ptr, v). unat v)"
    by (simp add: drop_bit_eq_div unat_div)
qed

text \<open>\<open>VarintLength\<close>.\<close>

function VarintLength_loop :: "64 word \<Rightarrow> int \<Rightarrow> int" where
  "VarintLength_loop v len =
     (if v \<ge> 128 then VarintLength_loop (drop_bit 7 v) (len + 1) else len)"
  by pat_completeness auto
termination
proof (relation "measure (\<lambda>(v, len). unat v)")
  show "wf (measure (\<lambda>(v, len). unat v))" by simp
next
  fix v :: "64 word" and len :: int
  assume "128 \<le> v"
  then have "128 \<le> unat v" by (simp add: word_le_nat_alt)
  then have "unat v div 128 < unat v" by simp
  then show "((drop_bit 7 v, len + 1), (v, len)) \<in> measure (\<lambda>(v, len). unat v)"
    by (simp add: drop_bit_eq_div unat_div)
qed

definition VarintLength :: "64 word \<Rightarrow> int" where
  "VarintLength v = VarintLength_loop v 1"

text \<open>
  \<open>GetVarint32PtrFallback\<close>: the loop
  \<open>for (shift = 0; shift <= 28 && p < limit; shift += 7)\<close>. The counter \<open>shift\<close> only takes
  the values 0, 7, ..., 35 and is a natural number here. The output parameter \<open>*value\<close> is
  passed in with its content before the call and returned with its content after it: it is
  written only on the path that returns a position.
\<close>

function GetVarint32_loop ::
  "memory \<Rightarrow> addr \<Rightarrow> 32 word \<Rightarrow> nat \<Rightarrow> addr \<Rightarrow> 32 word \<Rightarrow> addr option \<times> 32 word" where
  "GetVarint32_loop mem limit val shift p result =
     (if shift \<le> 28 \<and> p < limit then
        (let byte = (ucast (mem p) :: 32 word) in
         if byte AND 128 \<noteq> 0 then
           GetVarint32_loop mem limit val (shift + 7) (p + 1)
             (result OR push_bit shift (byte AND 127))
         else (Some (p + 1), result OR push_bit shift byte))
      else (None, val))"
  by pat_completeness auto
termination
  by (relation "measure (\<lambda>(mem, limit, val, shift, p, result). 35 - shift)") auto

definition GetVarint32PtrFallback ::
  "memory \<Rightarrow> addr \<Rightarrow> addr \<Rightarrow> 32 word \<Rightarrow> addr option \<times> 32 word" where
  "GetVarint32PtrFallback mem p limit val = GetVarint32_loop mem limit val 0 p 0"

text \<open>\<open>GetVarint64Ptr\<close>: the same loop with \<open>shift <= 63\<close> on 64-bit values.\<close>

function GetVarint64_loop ::
  "memory \<Rightarrow> addr \<Rightarrow> 64 word \<Rightarrow> nat \<Rightarrow> addr \<Rightarrow> 64 word \<Rightarrow> addr option \<times> 64 word" where
  "GetVarint64_loop mem limit val shift p result =
     (if shift \<le> 63 \<and> p < limit then
        (let byte = (ucast (mem p) :: 64 word) in
         if byte AND 128 \<noteq> 0 then
           GetVarint64_loop mem limit val (shift + 7) (p + 1)
             (result OR push_bit shift (byte AND 127))
         else (Some (p + 1), result OR push_bit shift byte))
      else (None, val))"
  by pat_completeness auto
termination
  by (relation "measure (\<lambda>(mem, limit, val, shift, p, result). 70 - shift)") auto

definition GetVarint64Ptr ::
  "memory \<Rightarrow> addr \<Rightarrow> addr \<Rightarrow> 64 word \<Rightarrow> addr option \<times> 64 word" where
  "GetVarint64Ptr mem p limit val = GetVarint64_loop mem limit val 0 p 0"

text \<open>
  Modelled from the spec: \<open>GetVarint32Ptr\<close> is declared inline in util/coding.h, which is
  not among the sources. The spec's \<open>decode_varint32(p, limit, out)\<close> reads up to 5 bytes,
  succeeds iff a terminator byte appears before \<open>limit\<close> and within the byte budget, writes
  the value and returns the position after the terminator, and otherwise returns "no
  position" without writing \<open>out\<close>: the decoder that \<open>GetVarint32PtrFallback\<close> is.
\<close>

definition GetVarint32Ptr ::
  "memory \<Rightarrow> addr \<Rightarrow> addr \<Rightarrow> 32 word \<Rightarrow> addr option \<times> 32 word" where
  "GetVarint32Ptr mem p limit val = GetVarint32PtrFallback mem p limit val"

text \<open>
  \<open>bool GetVarint32(Slice* input, uint32_t* value)\<close>: the result, the slice \<open>*input\<close> and
  the content of \<open>*value\<close> after the call.
\<close>

definition GetVarint32 :: "memory \<Rightarrow> Slice \<Rightarrow> 32 word \<Rightarrow> bool \<times> Slice \<times> 32 word" where
  "GetVarint32 mem input val =
     (let p = Slice_data input;
          limit = p + Slice_size input;
          (q, val') = GetVarint32Ptr mem p limit val
      in case q of
           None \<Rightarrow> (False, input, val')
         | Some q' \<Rightarrow> (True, Slice_of q' (limit - q'), val'))"

definition GetVarint64 :: "memory \<Rightarrow> Slice \<Rightarrow> 64 word \<Rightarrow> bool \<times> Slice \<times> 64 word" where
  "GetVarint64 mem input val =
     (let p = Slice_data input;
          limit = p + Slice_size input;
          (q, val') = GetVarint64Ptr mem p limit val
      in case q of
           None \<Rightarrow> (False, input, val')
         | Some q' \<Rightarrow> (True, Slice_of q' (limit - q'), val'))"

text \<open>
  \<open>bool GetLengthPrefixedSlice(Slice* input, Slice* result)\<close>. The local \<open>len\<close> is
  uninitialised in the source and read only after a successful \<open>GetVarint32\<close> has written
  it; the model starts it at 0. The result is the returned flag, \<open>*input\<close> and \<open>*result\<close>
  after the call.
\<close>

definition GetLengthPrefixedSlice ::
  "memory \<Rightarrow> Slice \<Rightarrow> Slice \<Rightarrow> error + (bool \<times> Slice \<times> Slice)" where
  "GetLengthPrefixedSlice mem input result =
     (let (ok, input1, len) = GetVarint32 mem input 0 in
      if ok \<and> Slice_size input1 \<ge> unat len then
        (case remove_prefix input1 (unat len) of
           Inl e \<Rightarrow> Inl e
         | Inr input2 \<Rightarrow> Inr (True, input2, Slice_of (Slice_data input1) (unat len)))
      else Inr (False, input1, result))"

text \<open>
  \<open>const char* GetLengthPrefixedSlice(const char* p, const char* limit, Slice* result)\<close>,
  the pointer overload: \<open>p\<close> is the callee's copy, so the caller's position is untouched
  whatever is returned.
\<close>

definition GetLengthPrefixedSlice_ptr ::
  "memory \<Rightarrow> addr \<Rightarrow> addr \<Rightarrow> Slice \<Rightarrow> addr option \<times> Slice" where
  "GetLengthPrefixedSlice_ptr mem p limit result =
     (let (q, len) = GetVarint32Ptr mem p limit 0 in
      case q of
        None \<Rightarrow> (None, result)
      | Some p' \<Rightarrow>
          if p' + unat len > limit then (None, result)
          else (Some (p' + unat len), Slice_of p' (unat len)))"


section \<open>Byte-range comparison (include/leveldb/slice.h)\<close>

text \<open>
  \<open>memcmp\<close> of the C library: the first \<open>n\<close> bytes at \<open>s1\<close> and \<open>s2\<close> are compared as
  unsigned chars; the result is zero when they agree and has the sign of the difference
  of the first pair of bytes that differ (here it is that difference).
\<close>

fun memcmp :: "memory \<Rightarrow> addr \<Rightarrow> addr \<Rightarrow> nat \<Rightarrow> int" where
  "memcmp mem s1 s2 0 = 0"
| "memcmp mem s1 s2 (Suc n) =
     (if mem s1 = mem s2 then memcmp mem (s1 + 1) (s2 + 1) n
      else int (unat (mem s1)) - int (unat (mem s2)))"

text \<open>\<open>Slice::compare\<close>.\<close>

definition compare :: "memory \<Rightarrow> Slice \<Rightarrow> Slice \<Rightarrow> int" where
  "compare mem a b =
     (let min_len = (if Slice_size a < Slice_size b then Slice_size a else Slice_size b);
          r = memcmp mem (Slice_data a) (Slice_data b) min_len
      in if r = 0 then
           (if Slice_size a < Slice_size b then - 1
            else if Slice_size a > Slice_size b then 1
            else r)
         else r)"

text \<open>\<open>operator==(const Slice&, const Slice&)\<close>.\<close>

definition operator_eq :: "memory \<Rightarrow> Slice \<Rightarrow> Slice \<Rightarrow> bool" where
  "operator_eq mem x y \<longleftrightarrow>
     Slice_size x = Slice_size y \<and> memcmp mem (Slice_data x) (Slice_data y) (Slice_size x) = 0"

section \<open>Arena (util/arena.h, util/arena.cc)\<close>

text \<open>
  \<open>size_t\<close> and \<open>char*\<close> are 64-bit words. The fields are \<open>alloc_ptr_\<close>,
  \<open>alloc_bytes_remaining_\<close>, \<open>blocks_\<close> and \<open>memory_usage_\<close>. The host heap is the list of
  the arrays that \<open>new char[n]\<close> has handed out, each with its address and its length.
  What \<open>new char[n]\<close> does is a parameter \<open>new_char\<close> of every operation: on a heap and
  a size it either picks the address of the new array or, when the host cannot supply
  the bytes, throws \<open>std::bad_alloc\<close> (\<open>None\<close>). Nothing in the arena catches the exception,
  so the operation ends with \<open>OutOfMemory\<close> and the arena is not used further.
\<close>

type_synonym size_t = "64 word"
type_synonym char_ptr = "64 word"
type_synonym host_heap = "(char_ptr \<times> size_t) list"
type_synonym host_new = "host_heap \<Rightarrow> size_t \<Rightarrow> char_ptr option"

record Arena =
  alloc_ptr :: char_ptr
  alloc_bytes_remaining :: size_t
  blocks :: "char_ptr list"
  memory_usage :: size_t

definition kBlockSize :: size_t where
  "kBlockSize = 4096"

text \<open>\<open>Arena::Arena()\<close>.\<close>

definition Arena_init :: Arena where
  "Arena_init = \<lparr>alloc_ptr = 0, alloc_bytes_remaining = 0, blocks = [], memory_usage = 0\<rparr>"

text \<open>\<open>Arena::AllocateNewBlock\<close>: \<open>new char[block_bytes]\<close>, which may throw, then the
  push and the usage count; \<open>sizeof(char*)\<close> is 8.\<close>

definition AllocateNewBlock ::
  "host_new \<Rightarrow> host_heap \<times> Arena \<Rightarrow> size_t \<Rightarrow> error + (char_ptr \<times> host_heap \<times> Arena)" where
  "AllocateNewBlock new_char s block_bytes =
     (let (h, a) = s in
      case new_char h block_bytes of
        None \<Rightarrow> Inl OutOfMemory
      | Some result \<Rightarrow>
          Inr (result,
               h @ [(result, block_bytes)],
               a\<lparr>blocks := blocks a @ [result],
                 memory_usage := memory_usage a + (block_bytes + 8)\<rparr>))"

text \<open>\<open>Arena::AllocateFallback\<close>.\<close>

definition AllocateFallback ::
  "host_new \<Rightarrow> host_heap \<times> Arena \<Rightarrow> size_t \<Rightarrow> error + (char_ptr \<times> host_heap \<times> Arena)" where
  "AllocateFallback new_char s bytes =
     (if bytes > kBlockSize div 4 then
        AllocateNewBlock new_char s bytes
      else
        (case AllocateNewBlock new_char s kBlockSize of
           Inl e \<Rightarrow> Inl e
         | Inr (p, h, a) \<Rightarrow>
             (let a1 = a\<lparr>alloc_ptr := p, alloc_bytes_remaining := kBlockSize\<rparr>;
                  result = alloc_ptr a1
              in Inr (result, h,
                      a1\<lparr>alloc_ptr := alloc_ptr a1 + bytes,
                         alloc_bytes_remaining := alloc_bytes_remaining a1 - bytes\<rparr>))))"

text \<open>\<open>Arena::Allocate\<close>: \<open>assert(bytes > 0)\<close>, the bump path, then the fallback.\<close>

definition Allocate ::
  "host_new \<Rightarrow> host_heap \<times> Arena \<Rightarrow> size_t \<Rightarrow> error + (char_ptr \<times> host_heap \<times> Arena)" where
  "Allocate new_char s bytes =
     (let (h, a) = s in
      if \<not> bytes > 0 then Inl AssertionFailed
      else if bytes \<le> alloc_bytes_remaining a then
        (let result = alloc_ptr a
         in Inr (result, h,
                 a\<lparr>alloc_ptr := alloc_ptr a + bytes,
                   alloc_bytes_remaining := alloc_bytes_remaining a - bytes\<rparr>))
      else AllocateFallback new_char s bytes)"

text \<open>\<open>Arena::AllocateAligned\<close>: \<open>align\<close> is 8 where pointers have 8 bytes; the final
  \<open>assert\<close> checks the alignment of the result.\<close>

definition AllocateAligned ::
  "host_new \<Rightarrow> host_heap \<times> Arena \<Rightarrow> size_t \<Rightarrow> error + (char_ptr \<times> host_heap \<times> Arena)" where
  "AllocateAligned new_char s bytes =
     (let (h, a) = s;
          align = (8 :: 64 word);
          current_mod = alloc_ptr a AND (align - 1);
          slop = (if current_mod = 0 then 0 else align - current_mod);
          needed = bytes + slop
      in case (if needed \<le> alloc_bytes_remaining a then
                 Inr (alloc_ptr a + slop, h,
                      a\<lparr>alloc_ptr := alloc_ptr a + needed,
                        alloc_bytes_remaining := alloc_bytes_remaining a - needed\<rparr>)
               else AllocateFallback new_char s bytes) of
           Inl e \<Rightarrow> Inl e
         | Inr (result, h', a') \<Rightarrow>
             if result AND (align - 1) = 0 then Inr (result, h', a') else Inl AssertionFailed)"

text \<open>
  A host allocator for concrete runs: it supplies arrays of at most \<open>2^32\<close> bytes, the
  \<open>k\<close>-th of them at address \<open>k * 2^33\<close>, and throws on any larger request.
\<close>

definition sample_new_char :: host_new where
  "sample_new_char h n =
     (if n \<le> 4294967296 then Some (8589934592 * (1 + of_nat (length h))) else None)"

section \<open>Skip list (db/skiplist.h)\<close>

text \<open>
  A node has its key and the array \<open>next_\<close> of forward pointers, one per level of the
  node. Nodes live in memory obtained from the arena and are never freed or moved; the
  node store is the list of all nodes created so far, a \<open>Node*\<close> is the index of a node
  in the store, and \<open>nullptr\<close> is \<open>None\<close>. A slot of \<open>next_\<close> holds nothing (\<open>None\<close>) until a
  pointer is first stored in it (\<open>Some\<close> of the pointer): the constructor of \<open>Node\<close> sets
  the key only. Heights and levels are natural numbers: the only place where the \<open>int\<close>
  of the source could go below zero is \<open>GetMaxHeight() - 1\<close>, which is written out in
  \<open>FindGreaterOrEqual\<close>, \<open>FindLessThan\<close> and \<open>FindLast\<close>.
\<close>

record 'k Node =
  Node_key :: 'k
  Node_next :: "nat option option list"

definition kMaxHeight :: nat where
  "kMaxHeight = 12"

text \<open>
  \<open>class SkipList\<close>: the comparator \<open>compare_\<close>, the node store, \<open>head_\<close>, \<open>max_height_\<close> and
  the generator state \<open>rnd_\<close>. The arena behind \<open>arena_\<close> is passed to the operations that
  allocate, together with the host heap.
\<close>

record ('k, 'r) SkipList =
  compare_fn :: "'k \<Rightarrow> 'k \<Rightarrow> int"
  nodes :: "'k Node list"
  head :: nat
  max_height :: nat
  rnd :: 'r

text \<open>
  \<open>Node::Next(n)\<close> and \<open>Node::SetNext(n, x)\<close> on the node \<open>x\<close> of a store, and their
  \<open>NoBarrier\<close> variants, which differ in memory ordering only. Reading or writing a slot
  that the node does not have, or a node that does not exist, is an invalid access, and
  so is reading a slot in which nothing was stored yet.
\<close>

definition has_slot :: "'k Node list \<Rightarrow> nat \<Rightarrow> nat \<Rightarrow> bool" where
  "has_slot ns x n \<longleftrightarrow> x < length ns \<and> n < length (Node_next (ns ! x))"

definition Node_Next :: "'k Node list \<Rightarrow> nat \<Rightarrow> nat \<Rightarrow> error + nat option" where
  "Node_Next ns x n =
     (if has_slot ns x n then
        (case Node_next (ns ! x) ! n of
           None \<Rightarrow> Inl InvalidAccess
         | Some v \<Rightarrow> Inr v)
      else Inl InvalidAccess)"

definition Node_SetNext :: "'k Node list \<Rightarrow> nat \<Rightarrow> nat \<Rightarrow> nat option \<Rightarrow> error + 'k Node list" where
  "Node_SetNext ns x n v =
     (if has_slot ns x n
      then Inr (ns[x := (ns ! x)\<lparr>Node_next := (Node_next (ns ! x))[n := Some v]\<rparr>])
      else Inl InvalidAccess)"

definition NoBarrier_Next :: "'k Node list \<Rightarrow> nat \<Rightarrow> nat \<Rightarrow> error + nat option" where
  "NoBarrier_Next ns x n = Node_Next ns x n"

definition NoBarrier_SetNext ::
  "'k Node list \<Rightarrow> nat \<Rightarrow> nat \<Rightarrow> nat option \<Rightarrow> error + 'k Node list" where
  "NoBarrier_SetNext ns x n v = Node_SetNext ns x n v"

text \<open>
  \<open>SkipList::NewNode\<close>: the memory comes from \<open>arena_->AllocateAligned\<close>, which may fail;
  the node is then constructed in it. \<open>sizeof(Node)\<close> depends on the key type and is the
  parameter \<open>sizeof_Node\<close>; a forward pointer has 8 bytes. The constructor of \<open>Node\<close> sets
  the key only, so the \<open>height\<close> slots of the new node hold nothing.
\<close>

definition NewNode ::
  "host_new \<Rightarrow> size_t \<Rightarrow> host_heap \<times> Arena \<Rightarrow> 'k Node list \<Rightarrow> 'k \<Rightarrow> nat
     \<Rightarrow> error + ((host_heap \<times> Arena) \<times> 'k Node list \<times> nat)" where
  "NewNode new_char sizeof_Node w ns k height =
     (case AllocateAligned new_char w (sizeof_Node + 8 * (of_nat height - 1)) of
        Inl e \<Rightarrow> Inl e
      | Inr (node_memory, h, a) \<Rightarrow>
          Inr ((h, a), ns @ [\<lparr>Node_key = k, Node_next = replicate height None\<rparr>], length ns))"

text \<open>
  \<open>SkipList::SkipList(cmp, arena)\<close>: the head node of height \<open>kMaxHeight\<close> with an arbitrary
  key \<open>k0\<close>, \<open>max_height_ = 1\<close>, the generator state \<open>r0\<close> that \<open>Random(0xdeadbeef)\<close> starts in,
  and the loop that stores \<open>nullptr\<close> in every slot of the head.
\<close>

function SkipList_init_loop :: "'k Node list \<Rightarrow> nat \<Rightarrow> nat \<Rightarrow> error + 'k Node list" where
  "SkipList_init_loop ns hnode i =
     (if i < kMaxHeight then
        (case Node_SetNext ns hnode i None of
           Inl e \<Rightarrow> Inl e
         | Inr ns' \<Rightarrow> SkipList_init_loop ns' hnode (i + 1))
      else Inr ns)"
  by pat_completeness auto
termination
  by (relation "measure (\<lambda>(ns, hnode, i). kMaxHeight - i)") auto

definition SkipList_new ::
  "host_new \<Rightarrow> size_t \<Rightarrow> host_heap \<times> Arena \<Rightarrow> ('k \<Rightarrow> 'k \<Rightarrow> int) \<Rightarrow> 'k \<Rightarrow> 'r
     \<Rightarrow> error + ((host_heap \<times> Arena) \<times> ('k, 'r) SkipList)" where
  "SkipList_new new_char sizeof_Node w cmp k0 r0 =
     (case NewNode new_char sizeof_Node w [] k0 kMaxHeight of
        Inl e \<Rightarrow> Inl e
      | Inr (w', ns, hnode) \<Rightarrow>
          (case SkipList_init_loop ns hnode 0 of
             Inl e \<Rightarrow> Inl e
           | Inr ns' \<Rightarrow>
               Inr (w', \<lparr>compare_fn = cmp, nodes = ns', head = hnode, max_height = 1,
                         rnd = r0\<rparr>)))"

text \<open>
  \<open>SkipList::RandomHeight\<close>. \<open>Random::Next\<close> is not among the sources: it is the parameter
  \<open>rnd_next\<close>, which maps a generator state to the sample and the next state. The sample
  is drawn only while \<open>height < kMaxHeight\<close>.
\<close>

function RandomHeight_loop :: "('r \<Rightarrow> 32 word \<times> 'r) \<Rightarrow> nat \<Rightarrow> 'r \<Rightarrow> nat \<times> 'r" where
  "RandomHeight_loop rnd_next height r =
     (if height < kMaxHeight then
        (let (v, r') = rnd_next r in
         if v mod 4 = 0 then RandomHeight_loop rnd_next (height + 1) r'
         else (height, r'))
      else (height, r))"
  by pat_completeness auto
termination
  by (relation "measure (\<lambda>(rnd_next, height, r). kMaxHeight - height)") auto

definition RandomHeight :: "('r \<Rightarrow> 32 word \<times> 'r) \<Rightarrow> 'r \<Rightarrow> error + (nat \<times> 'r)" where
  "RandomHeight rnd_next r =
     (let (height, r') = RandomHeight_loop rnd_next 1 r in
      if height > 0 \<and> height \<le> kMaxHeight then Inr (height, r') else Inl AssertionFailed)"

text \<open>\<open>SkipList::Equal\<close> and \<open>SkipList::KeyIsAfterNode\<close>.\<close>

definition Equal :: "('k, 'r) SkipList \<Rightarrow> 'k \<Rightarrow> 'k \<Rightarrow> bool" where
  "Equal sl a b \<longleftrightarrow> compare_fn sl a b = 0"

definition KeyIsAfterNode :: "('k, 'r) SkipList \<Rightarrow> 'k \<Rightarrow> nat option \<Rightarrow> error + bool" where
  "KeyIsAfterNode sl k n =
     (case n of
        None \<Rightarrow> Inr False
      | Some i \<Rightarrow>
          if i < length (nodes sl) then Inr (compare_fn sl (Node_key (nodes sl ! i)) k < 0)
          else Inl InvalidAccess)"

text \<open>
  \<open>if (prev != nullptr) prev[level] = x\<close>. The array \<open>prev\<close> of the caller is a list of
  \<open>kMaxHeight\<close> entries, each \<open>None\<close> until it is written; no array is \<open>None\<close>.
\<close>

definition set_prev :: "nat option list option \<Rightarrow> nat \<Rightarrow> nat \<Rightarrow> error + nat option list option" where
  "set_prev prev level x =
     (case prev of
        None \<Rightarrow> Inr None
      | Some a \<Rightarrow> if level < length a then Inr (Some (a[level := Some x])) else Inl InvalidAccess)"

text \<open>
  \<open>SkipList::FindGreaterOrEqual\<close>: the \<open>while (true)\<close> loop on \<open>x\<close> and \<open>level\<close>. A run that
  does not return is \<open>None\<close>.
\<close>

partial_function (option) FindGreaterOrEqual_loop ::
  "('k, 'r) SkipList \<Rightarrow> 'k \<Rightarrow> nat option list option \<Rightarrow> nat \<Rightarrow> nat
     \<Rightarrow> (error + (nat option \<times> nat option list option)) option" where
  "FindGreaterOrEqual_loop sl k prev x level =
     (case Node_Next (nodes sl) x level of
        Inl e \<Rightarrow> Some (Inl e)
      | Inr next \<Rightarrow>
          (case KeyIsAfterNode sl k next of
             Inl e \<Rightarrow> Some (Inl e)
           | Inr after \<Rightarrow>
               if after then
                 (case next of
                    None \<Rightarrow> Some (Inl InvalidAccess)
                  | Some n \<Rightarrow> FindGreaterOrEqual_loop sl k prev n level)
               else
                 (case set_prev prev level x of
                    Inl e \<Rightarrow> Some (Inl e)
                  | Inr prev' \<Rightarrow>
                      if level = 0 then Some (Inr (next, prev'))
                      else FindGreaterOrEqual_loop sl k prev' x (level - 1))))"

declare FindGreaterOrEqual_loop.simps [code]

definition FindGreaterOrEqual ::
  "('k, 'r) SkipList \<Rightarrow> 'k \<Rightarrow> nat option list option
     \<Rightarrow> (error + (nat option \<times> nat option list option)) option" where
  "FindGreaterOrEqual sl k prev =
     (if max_height sl = 0 then Some (Inl AssertionFailed)
      else FindGreaterOrEqual_loop sl k prev (head sl) (max_height sl - 1))"

text \<open>\<open>SkipList::FindLessThan\<close>, with its \<open>assert(x == head_ || compare_(x->key, key) < 0)\<close>.\<close>

partial_function (option) FindLessThan_loop ::
  "('k, 'r) SkipList \<Rightarrow> 'k \<Rightarrow> nat \<Rightarrow> nat \<Rightarrow> (error + nat) option" where
  "FindLessThan_loop sl k x level =
     (if \<not> (x = head sl \<or> x < length (nodes sl)) then Some (Inl InvalidAccess)
      else if \<not> (x = head sl \<or> compare_fn sl (Node_key (nodes sl ! x)) k < 0)
      then Some (Inl AssertionFailed)
      else
        (case Node_Next (nodes sl) x level of
           Inl e \<Rightarrow> Some (Inl e)
         | Inr next \<Rightarrow>
             (case next of
                None \<Rightarrow>
                  if level = 0 then Some (Inr x) else FindLessThan_loop sl k x (level - 1)
              | Some n \<Rightarrow>
                  if \<not> n < length (nodes sl) then Some (Inl InvalidAccess)
                  else if compare_fn sl (Node_key (nodes sl ! n)) k \<ge> 0 then
                    (if level = 0 then Some (Inr x) else FindLessThan_loop sl k x (level - 1))
                  else FindLessThan_loop sl k n level)))"

declare FindLessThan_loop.simps [code]

definition FindLessThan :: "('k, 'r) SkipList \<Rightarrow> 'k \<Rightarrow> (error + nat) option" where
  "FindLessThan sl k =
     (if max_height sl = 0 then Some (Inl AssertionFailed)
      else FindLessThan_loop sl k (head sl) (max_height sl - 1))"

text \<open>\<open>SkipList::FindLast\<close>.\<close>

partial_function (option) FindLast_loop ::
  "('k, 'r) SkipList \<Rightarrow> nat \<Rightarrow> nat \<Rightarrow> (error + nat) option" where
  "FindLast_loop sl x level =
     (case Node_Next (nodes sl) x level of
        Inl e \<Rightarrow> Some (Inl e)
      | Inr next \<Rightarrow>
          (case next of
             None \<Rightarrow> if level = 0 then Some (Inr x) else FindLast_loop sl x (level - 1)
           | Some n \<Rightarrow> FindLast_loop sl n level))"

declare FindLast_loop.simps [code]

definition FindLast :: "('k, 'r) SkipList \<Rightarrow> (error + nat) option" where
  "FindLast sl =
     (if max_height sl = 0 then Some (Inl AssertionFailed)
      else FindLast_loop sl (head sl) (max_height sl - 1))"

text \<open>
  \<open>SkipList::Insert\<close>, after the search: the \<open>assert\<close> on the node found, the height, the
  new levels of \<open>prev\<close>, the node, and the loop that links it level by level. An entry of
  \<open>prev\<close> that was never written cannot be followed.
\<close>

function Insert_fill_prev :: "nat option list \<Rightarrow> nat \<Rightarrow> nat \<Rightarrow> nat \<Rightarrow> error + nat option list" where
  "Insert_fill_prev prev hnode i height =
     (if i < height then
        (if i < length prev then Insert_fill_prev (prev[i := Some hnode]) hnode (i + 1) height
         else Inl InvalidAccess)
      else Inr prev)"
  by pat_completeness auto
termination
  by (relation "measure (\<lambda>(prev, hnode, i, height). height - i)") auto

function Insert_link ::
  "'k Node list \<Rightarrow> nat option list \<Rightarrow> nat \<Rightarrow> nat \<Rightarrow> nat \<Rightarrow> error + 'k Node list" where
  "Insert_link ns prev x i height =
     (if i < height then
        (if \<not> i < length prev then Inl InvalidAccess
         else case prev ! i of
           None \<Rightarrow> Inl InvalidAccess
         | Some p \<Rightarrow>
             (case NoBarrier_Next ns p i of
                Inl e \<Rightarrow> Inl e
              | Inr nx \<Rightarrow>
                  (case NoBarrier_SetNext ns x i nx of
                     Inl e \<Rightarrow> Inl e
                   | Inr ns1 \<Rightarrow>
                       (case Node_SetNext ns1 p i (Some x) of
                          Inl e \<Rightarrow> Inl e
                        | Inr ns2 \<Rightarrow> Insert_link ns2 prev x (i + 1) height))))
      else Inr ns)"
  by pat_completeness auto
termination
  by (relation "measure (\<lambda>(ns, prev, x, i, height). height - i)") auto

definition Insert_after_find ::
  "host_new \<Rightarrow> ('r \<Rightarrow> 32 word \<times> 'r) \<Rightarrow> size_t \<Rightarrow> host_heap \<times> Arena \<Rightarrow> ('k, 'r) SkipList \<Rightarrow> 'k
     \<Rightarrow> nat option \<Rightarrow> nat option list
     \<Rightarrow> error + ((host_heap \<times> Arena) \<times> ('k, 'r) SkipList)" where
  "Insert_after_find new_char rnd_next sizeof_Node w sl k x prev =
     (if \<not> (case x of None \<Rightarrow> True | Some i \<Rightarrow> i < length (nodes sl)) then Inl InvalidAccess
      else if \<not> (case x of None \<Rightarrow> True | Some i \<Rightarrow> \<not> Equal sl k (Node_key (nodes sl ! i)))
      then Inl AssertionFailed
      else
        (case RandomHeight rnd_next (rnd sl) of
           Inl e \<Rightarrow> Inl e
         | Inr (height, r') \<Rightarrow>
             (case (if height > max_height sl
                    then Insert_fill_prev prev (head sl) (max_height sl) height
                    else Inr prev) of
                Inl e \<Rightarrow> Inl e
              | Inr prev' \<Rightarrow>
                  (case NewNode new_char sizeof_Node w (nodes sl) k height of
                     Inl e \<Rightarrow> Inl e
                   | Inr (w', ns, xn) \<Rightarrow>
                       (case Insert_link ns prev' xn 0 height of
                          Inl e \<Rightarrow> Inl e
                        | Inr ns' \<Rightarrow>
                            Inr (w', sl\<lparr>nodes := ns',
                                       max_height := (if height > max_height sl then height
                                                      else max_height sl),
                                       rnd := r'\<rparr>))))))"

definition Insert ::
  "host_new \<Rightarrow> ('r \<Rightarrow> 32 word \<times> 'r) \<Rightarrow> size_t \<Rightarrow> host_heap \<times> Arena \<Rightarrow> ('k, 'r) SkipList \<Rightarrow> 'k
     \<Rightarrow> (error + ((host_heap \<times> Arena) \<times> ('k, 'r) SkipList)) option" where
  "Insert new_char rnd_next sizeof_Node w sl k =
     (case FindGreaterOrEqual sl k (Some (replicate kMaxHeight None)) of
        None \<Rightarrow> None
      | Some (Inl e) \<Rightarrow> Some (Inl e)
      | Some (Inr (x, None)) \<Rightarrow> Some (Inl InvalidAccess)
      | Some (Inr (x, Some prev)) \<Rightarrow>
          Some (Insert_after_find new_char rnd_next sizeof_Node w sl k x prev))"


text \<open>A run of inserts, one key after the other, that stops at the first failure.\<close>

fun Insert_all ::
  "host_new \<Rightarrow> ('r \<Rightarrow> 32 word \<times> 'r) \<Rightarrow> size_t \<Rightarrow> host_heap \<times> Arena \<Rightarrow> ('k, 'r) SkipList \<Rightarrow> 'k list
     \<Rightarrow> (error + ((host_heap \<times> Arena) \<times> ('k, 'r) SkipList)) option" where
  "Insert_all new_char rnd_next sizeof_Node w sl [] = Some (Inr (w, sl))"
| "Insert_all new_char rnd_next sizeof_Node w sl (k # ks) =
     (case Insert new_char rnd_next sizeof_Node w sl k of
        None \<Rightarrow> None
      | Some (Inl e) \<Rightarrow> Some (Inl e)
      | Some (Inr (w', sl')) \<Rightarrow> Insert_all new_char rnd_next sizeof_Node w' sl' ks)"

text \<open>A fresh list and then a run of inserts.\<close>

definition build ::
  "host_new \<Rightarrow> ('r \<Rightarrow> 32 word \<times> 'r) \<Rightarrow> size_t \<Rightarrow> host_heap \<times> Arena \<Rightarrow> ('k \<Rightarrow> 'k \<Rightarrow> int) \<Rightarrow> 'k \<Rightarrow> 'r
     \<Rightarrow> 'k list \<Rightarrow> (error + ((host_heap \<times> Arena) \<times> ('k, 'r) SkipList)) option" where
  "build new_char rnd_next sizeof_Node w cmp k0 r0 ks =
     (case SkipList_new new_char sizeof_Node w cmp k0 r0 of
        Inl e \<Rightarrow> Some (Inl e)
      | Inr (w', sl) \<Rightarrow> Insert_all new_char rnd_next sizeof_Node w' sl ks)"

subsection \<open>The iterator\<close>

text \<open>
  \<open>class SkipList::Iterator\<close>: the field \<open>node_\<close>; the list behind \<open>list_\<close> is passed to
  every operation. Every operation that requires \<open>Valid()\<close> asserts it.
\<close>

record Iterator =
  node :: "nat option"

definition Iterator_new :: Iterator where
  "Iterator_new = \<lparr>node = None\<rparr>"

definition Iterator_Valid :: "Iterator \<Rightarrow> bool" where
  "Iterator_Valid it \<longleftrightarrow> node it \<noteq> None"

definition Iterator_key :: "('k, 'r) SkipList \<Rightarrow> Iterator \<Rightarrow> error + 'k" where
  "Iterator_key sl it =
     (if \<not> Iterator_Valid it then Inl AssertionFailed
      else case node it of
        None \<Rightarrow> Inl InvalidAccess
      | Some i \<Rightarrow> if i < length (nodes sl) then Inr (Node_key (nodes sl ! i)) else Inl InvalidAccess)"

definition Iterator_Next :: "('k, 'r) SkipList \<Rightarrow> Iterator \<Rightarrow> error + Iterator" where
  "Iterator_Next sl it =
     (if \<not> Iterator_Valid it then Inl AssertionFailed
      else case node it of
        None \<Rightarrow> Inl InvalidAccess
      | Some i \<Rightarrow>
          (case Node_Next (nodes sl) i 0 of
             Inl e \<Rightarrow> Inl e
           | Inr n \<Rightarrow> Inr (it\<lparr>node := n\<rparr>)))"

definition Iterator_Prev :: "('k, 'r) SkipList \<Rightarrow> Iterator \<Rightarrow> (error + Iterator) option" where
  "Iterator_Prev sl it =
     (if \<not> Iterator_Valid it then Some (Inl AssertionFailed)
      else case node it of
        None \<Rightarrow> Some (Inl InvalidAccess)
      | Some i \<Rightarrow>
          if \<not> i < length (nodes sl) then Some (Inl InvalidAccess)
          else
            (case FindLessThan sl (Node_key (nodes sl ! i)) of
               None \<Rightarrow> None
             | Some (Inl e) \<Rightarrow> Some (Inl e)
             | Some (Inr x) \<Rightarrow>
                 Some (Inr (it\<lparr>node := (if x = head sl then None else Some x)\<rparr>))))"

definition Iterator_Seek :: "('k, 'r) SkipList \<Rightarrow> Iterator \<Rightarrow> 'k \<Rightarrow> (error + Iterator) option" where
  "Iterator_Seek sl it target =
     (case FindGreaterOrEqual sl target None of
        None \<Rightarrow> None
      | Some (Inl e) \<Rightarrow> Some (Inl e)
      | Some (Inr (x, prev)) \<Rightarrow> Some (Inr (it\<lparr>node := x\<rparr>)))"

definition Iterator_SeekToFirst :: "('k, 'r) SkipList \<Rightarrow> Iterator \<Rightarrow> error + Iterator" where
  "Iterator_SeekToFirst sl it =
     (case Node_Next (nodes sl) (head sl) 0 of
        Inl e \<Rightarrow> Inl e
      | Inr n \<Rightarrow> Inr (it\<lparr>node := n\<rparr>))"

definition Iterator_SeekToLast :: "('k, 'r) SkipList \<Rightarrow> Iterator \<Rightarrow> (error + Iterator) option" where
  "Iterator_SeekToLast sl it =
     (case FindLast sl of
        None \<Rightarrow> None
      | Some (Inl e) \<Rightarrow> Some (Inl e)
      | Some (Inr x) \<Rightarrow> Some (Inr (it\<lparr>node := (if x = head sl then None else Some x)\<rparr>)))"

text \<open>The operations that move an iterator, and a run of them that stops at the first
  failure.\<close>

datatype 'k iter_op = Seek 'k | SeekToFirst | SeekToLast | Next | Prev

fun iter_step :: "('k, 'r) SkipList \<Rightarrow> Iterator \<Rightarrow> 'k iter_op \<Rightarrow> (error + Iterator) option" where
  "iter_step sl it (Seek target) = Iterator_Seek sl it target"
| "iter_step sl it SeekToFirst = Some (Iterator_SeekToFirst sl it)"
| "iter_step sl it SeekToLast = Iterator_SeekToLast sl it"
| "iter_step sl it Next = Some (Iterator_Next sl it)"
| "iter_step sl it Prev = Iterator_Prev sl it"

fun iter_run :: "('k, 'r) SkipList \<Rightarrow> Iterator \<Rightarrow> 'k iter_op list \<Rightarrow> (error + Iterator) option" where
  "iter_run sl it [] = Some (Inr it)"
| "iter_run sl it (op # ops) =
     (case iter_step sl it op of
        None \<Rightarrow> None
      | Some (Inl e) \<Rightarrow> Some (Inl e)
      | Some (Inr it') \<Rightarrow> iter_run sl it' ops)"

text \<open>
  Following the forward pointers of level \<open>L\<close> from node \<open>x\<close>: \<open>level_chain ns L x ys\<close>
  holds when the nodes visited after \<open>x\<close> are \<open>ys\<close>, in this order, and the last of them
  (or \<open>x\<close> itself) points to \<open>nullptr\<close>.
\<close>

fun level_chain :: "'k Node list \<Rightarrow> nat \<Rightarrow> nat \<Rightarrow> nat list \<Rightarrow> bool" where
  "level_chain ns L x [] \<longleftrightarrow> Node_Next ns x L = Inr None"
| "level_chain ns L x (y # ys) \<longleftrightarrow> Node_Next ns x L = Inr (Some y) \<and> level_chain ns L y ys"

text \<open>
  What the comparator is required to be: a three-way comparison of a strict weak order.
  The sign flips with the arguments, and \<open>less\<close> is transitive and compatible with
  comparing equal.
\<close>

definition comparator_ok :: "('k \<Rightarrow> 'k \<Rightarrow> int) \<Rightarrow> bool" where
  "comparator_ok c \<longleftrightarrow>
     (\<forall>a b. (c a b < 0) = (c b a > 0)) \<and>
     (\<forall>a b d. c a b < 0 \<and> c b d < 0 \<longrightarrow> c a d < 0) \<and>
     (\<forall>a b d. c a b = 0 \<and> c b d < 0 \<longrightarrow> c a d < 0) \<and>
     (\<forall>a b d. c a b < 0 \<and> c b d = 0 \<longrightarrow> c a d < 0)"

text \<open>Keys that are pairwise distinct for the comparator.\<close>

fun cmp_distinct :: "('k \<Rightarrow> 'k \<Rightarrow> int) \<Rightarrow> 'k list \<Rightarrow> bool" where
  "cmp_distinct c [] = True"
| "cmp_distinct c (k # ks) = ((\<forall>k' \<in> set ks. c k k' \<noteq> 0) \<and> cmp_distinct c ks)"

text \<open>What \<open>new char[n]\<close> guarantees when it returns: memory aligned for any object.\<close>

definition host_aligned :: "host_new \<Rightarrow> bool" where
  "host_aligned new_char \<longleftrightarrow> (\<forall>h n p. new_char h n = Some p \<longrightarrow> p AND 7 = 0)"

text \<open>
  The structural invariant of a list, for given lists \<open>cs ! L\<close> of the nodes linked at each
  level \<open>L\<close>: the head is node 0 and is on no level; the forward pointers of level \<open>L\<close> from
  the head visit \<open>cs ! L\<close> and end in \<open>nullptr\<close>; the keys visited are strictly ascending;
  the levels from \<open>max_height_\<close> up are empty; the nodes of a level are nodes of the level
  below.
\<close>

definition sl_inv :: "('k, 'r) SkipList \<Rightarrow> nat list list \<Rightarrow> bool" where
  "sl_inv sl cs \<longleftrightarrow>
     head sl = 0 \<and> length cs = kMaxHeight \<and> 0 < max_height sl \<and> max_height sl \<le> kMaxHeight \<and>
     (\<forall>L < kMaxHeight.
        level_chain (nodes sl) L 0 (cs ! L) \<and>
        sorted_wrt (\<lambda>a b. compare_fn sl a b < 0) (map (\<lambda>y. Node_key (nodes sl ! y)) (cs ! L)) \<and>
        0 \<notin> set (cs ! L) \<and>
        (max_height sl \<le> L \<longrightarrow> cs ! L = []) \<and>
        (0 < L \<longrightarrow> set (cs ! L) \<subseteq> set (cs ! (L - 1))))"

text \<open>
  On a level with nodes \<open>ys\<close>: the nodes whose keys are before \<open>k\<close>, the nodes from there
  on, and the node after which \<open>k\<close> belongs (the head when no key is before \<open>k\<close>).
\<close>

definition before_key :: "('k, 'r) SkipList \<Rightarrow> 'k \<Rightarrow> nat list \<Rightarrow> nat list" where
  "before_key sl k ys = takeWhile (\<lambda>y. compare_fn sl (Node_key (nodes sl ! y)) k < 0) ys"

definition from_key :: "('k, 'r) SkipList \<Rightarrow> 'k \<Rightarrow> nat list \<Rightarrow> nat list" where
  "from_key sl k ys = dropWhile (\<lambda>y. compare_fn sl (Node_key (nodes sl ! y)) k < 0) ys"

definition pred_at :: "('k, 'r) SkipList \<Rightarrow> 'k \<Rightarrow> nat list \<Rightarrow> nat" where
  "pred_at sl k ys = last (0 # before_key sl k ys)"

definition first_of :: "nat list \<Rightarrow> nat option" where
  "first_of ys = (case ys of [] \<Rightarrow> None | y # zs \<Rightarrow> Some y)"

text \<open>
  For concrete runs: integer keys compared by their difference, and a generator whose
  state is a counter and whose sample is the counter.
\<close>

definition int_cmp :: "int \<Rightarrow> int \<Rightarrow> int" where
  "int_cmp a b = a - b"

definition counter_next :: "nat \<Rightarrow> 32 word \<times> nat" where
  "counter_next r = (of_nat r, r + 1)"

section \<open>Properties of the varint codec\<close>

declare GetVarint32_loop.simps [simp del]
declare GetVarint64_loop.simps [simp del]
declare EncodeVarint64.simps [simp del]

subsection \<open>The continuation bit and the two exits of the decoder loops\<close>

lemma cont32: "((ucast (b::8 word) :: 32 word) AND 128 \<noteq> 0) = bit b 7"
proof -
  have "(ucast b :: 32 word) AND 2 ^ 7 = 0 \<longleftrightarrow> \<not> bit (ucast b :: 32 word) 7"
    by (rule and_exp_eq_0_iff_not_bit)
  then show ?thesis by (simp add: bit_ucast_iff)
qed

lemma cont64: "((ucast (b::8 word) :: 64 word) AND 128 \<noteq> 0) = bit b 7"
proof -
  have "(ucast b :: 64 word) AND 2 ^ 7 = 0 \<longleftrightarrow> \<not> bit (ucast b :: 64 word) 7"
    by (rule and_exp_eq_0_iff_not_bit)
  then show ?thesis by (simp add: bit_ucast_iff)
qed

lemma loop32_more:
  "shift \<le> 28 \<Longrightarrow> p < limit \<Longrightarrow> bit (mem p) 7 \<Longrightarrow>
   GetVarint32_loop mem limit val shift p r =
   GetVarint32_loop mem limit val (shift + 7) (p + 1) (r OR push_bit shift (take_bit 7 (ucast (mem p))))"
  by (subst GetVarint32_loop.simps) (simp add: cont32 Let_def take_bit_eq_mask mask_eq_exp_minus_1)

lemma loop32_last:
  "shift \<le> 28 \<Longrightarrow> p < limit \<Longrightarrow> \<not> bit (mem p) 7 \<Longrightarrow>
   GetVarint32_loop mem limit val shift p r = (Some (p + 1), r OR push_bit shift (ucast (mem p)))"
  by (subst GetVarint32_loop.simps) (simp add: cont32 Let_def)

lemma GetVarint32_loop_None:
  "fst (GetVarint32_loop mem limit val shift p result) = None \<Longrightarrow>
   GetVarint32_loop mem limit val shift p result = (None, val)"
proof (induction mem limit val shift p result rule: GetVarint32_loop.induct)
  case (1 mem limit val shift p result)
  show ?case
  proof (cases "shift \<le> 28 \<and> p < limit")
    case False
    then show ?thesis by (subst GetVarint32_loop.simps) auto
  next
    case True
    show ?thesis
    proof (cases "bit (mem p) 7")
      case True
      with \<open>shift \<le> 28 \<and> p < limit\<close> "1.IH" "1.prems" show ?thesis
        by (simp add: cont32 Let_def GetVarint32_loop.simps [of mem limit val shift p result])
    next
      case False
      with \<open>shift \<le> 28 \<and> p < limit\<close> "1.prems" show ?thesis
        by (simp add: cont32 Let_def GetVarint32_loop.simps [of mem limit val shift p result])
    qed
  qed
qed

lemma GetVarint32_loop_reject:
  "(\<forall>a. p \<le> a \<and> a < limit \<and> shift + 7 * (a - p) \<le> 28 \<longrightarrow> bit (mem a) 7) \<Longrightarrow>
   GetVarint32_loop mem limit val shift p result = (None, val)"
proof (induction mem limit val shift p result rule: GetVarint32_loop.induct)
  case (1 mem limit val shift p result)
  show ?case
  proof (cases "shift \<le> 28 \<and> p < limit")
    case False
    then show ?thesis by (subst GetVarint32_loop.simps) auto
  next
    case True
    with "1.prems" have b: "bit (mem p) 7" by simp
    have "\<forall>a. p + 1 \<le> a \<and> a < limit \<and> shift + 7 + 7 * (a - (p + 1)) \<le> 28 \<longrightarrow> bit (mem a) 7"
      using "1.prems" by auto
    with True b "1.IH" show ?thesis
      by (simp add: cont32 Let_def GetVarint32_loop.simps [of mem limit val shift p result])
  qed
qed

lemma GetVarint64_loop_None:
  "fst (GetVarint64_loop mem limit val shift p result) = None \<Longrightarrow>
   GetVarint64_loop mem limit val shift p result = (None, val)"
proof (induction mem limit val shift p result rule: GetVarint64_loop.induct)
  case (1 mem limit val shift p result)
  show ?case
  proof (cases "shift \<le> 63 \<and> p < limit")
    case False
    then show ?thesis by (subst GetVarint64_loop.simps) auto
  next
    case True
    show ?thesis
    proof (cases "bit (mem p) 7")
      case True
      with \<open>shift \<le> 63 \<and> p < limit\<close> "1.IH" "1.prems" show ?thesis
        by (simp add: cont64 Let_def GetVarint64_loop.simps [of mem limit val shift p result])
    next
      case False
      with \<open>shift \<le> 63 \<and> p < limit\<close> "1.prems" show ?thesis
        by (simp add: cont64 Let_def GetVarint64_loop.simps [of mem limit val shift p result])
    qed
  qed
qed

lemma GetVarint64_loop_reject:
  "(\<forall>a. p \<le> a \<and> a < limit \<and> shift + 7 * (a - p) \<le> 63 \<longrightarrow> bit (mem a) 7) \<Longrightarrow>
   GetVarint64_loop mem limit val shift p result = (None, val)"
proof (induction mem limit val shift p result rule: GetVarint64_loop.induct)
  case (1 mem limit val shift p result)
  show ?case
  proof (cases "shift \<le> 63 \<and> p < limit")
    case False
    then show ?thesis by (subst GetVarint64_loop.simps) auto
  next
    case True
    with "1.prems" have b: "bit (mem p) 7" by simp
    have "\<forall>a. p + 1 \<le> a \<and> a < limit \<and> shift + 7 + 7 * (a - (p + 1)) \<le> 63 \<longrightarrow> bit (mem a) 7"
      using "1.prems" by auto
    with True b "1.IH" show ?thesis
      by (simp add: cont64 Let_def GetVarint64_loop.simps [of mem limit val shift p result])
  qed
qed

subsection \<open>Failed decodes\<close>

text \<open>
  Claim C5. \<open>GetVarint32PtrFallback\<close> returns no position when every byte of the range that
  lies among its first 5 bytes has the continuation bit set, and \<open>GetVarint64Ptr\<close> when
  every byte among the first 10 has: that is a 5-byte (10-byte) run of continuation bytes
  when the range is long enough, and a range that ends before any terminator byte when
  it is shorter. In both cases \<open>*value\<close> keeps the content it had.
\<close>

theorem varint_decode_rejects:
  "((\<forall>a. p \<le> a \<and> a < limit \<and> a < p + 5 \<longrightarrow> bit (mem a) 7) \<longrightarrow>
      GetVarint32PtrFallback mem p limit val32 = (None, val32)) \<and>
   ((\<forall>a. p \<le> a \<and> a < limit \<and> a < p + 10 \<longrightarrow> bit (mem a) 7) \<longrightarrow>
      GetVarint64Ptr mem p limit val64 = (None, val64))"
proof (intro conjI impI)
  assume h: "\<forall>a. p \<le> a \<and> a < limit \<and> a < p + 5 \<longrightarrow> bit (mem a) 7"
  have "\<forall>a. p \<le> a \<and> a < limit \<and> 0 + 7 * (a - p) \<le> 28 \<longrightarrow> bit (mem a) 7"
  proof (intro allI impI)
    fix a assume "p \<le> a \<and> a < limit \<and> 0 + 7 * (a - p) \<le> 28"
    then have "p \<le> a \<and> a < limit \<and> a < p + 5" by arith
    with h show "bit (mem a) 7" by blast
  qed
  then show "GetVarint32PtrFallback mem p limit val32 = (None, val32)"
    unfolding GetVarint32PtrFallback_def by (rule GetVarint32_loop_reject)
next
  assume h: "\<forall>a. p \<le> a \<and> a < limit \<and> a < p + 10 \<longrightarrow> bit (mem a) 7"
  have "\<forall>a. p \<le> a \<and> a < limit \<and> 0 + 7 * (a - p) \<le> 63 \<longrightarrow> bit (mem a) 7"
  proof (intro allI impI)
    fix a assume "p \<le> a \<and> a < limit \<and> 0 + 7 * (a - p) \<le> 63"
    then have "p \<le> a \<and> a < limit \<and> a < p + 10" by arith
    with h show "bit (mem a) 7" by blast
  qed
  then show "GetVarint64Ptr mem p limit val64 = (None, val64)"
    unfolding GetVarint64Ptr_def by (rule GetVarint64_loop_reject)
qed

theorem varint_decode_rejects_witness:
  "GetVarint32PtrFallback (\<lambda>a. 255) 0 7 0 = (None, 0) \<and>
   GetVarint64Ptr (\<lambda>a. 255) 0 12 0 = (None, 0) \<and>
   GetVarint32PtrFallback (\<lambda>a. if a < 3 then 129 else 1) 0 3 7 = (None, 7) \<and>
   GetVarint64Ptr (\<lambda>a. if a < 3 then 129 else 1) 0 3 7 = (None, 7)"
  using varint_decode_rejects [of 0 7 "\<lambda>a. 255" 0 0]
    varint_decode_rejects [of 0 12 "\<lambda>a. 255" 0 0]
    varint_decode_rejects [of 0 3 "\<lambda>a. if a < 3 then 129 else 1" 7 7]
  by simp

text \<open>
  Claim C9. When \<open>GetVarint32\<close> or \<open>GetVarint64\<close> on a slice returns false, the slice
  (pointer and size) and the content of \<open>*value\<close> are what they were before the call.
\<close>

theorem GetVarint_failure_leaves_input_and_value:
  "(\<not> fst (GetVarint32 mem input val32) \<longrightarrow>
      GetVarint32 mem input val32 = (False, input, val32)) \<and>
   (\<not> fst (GetVarint64 mem input val64) \<longrightarrow>
      GetVarint64 mem input val64 = (False, input, val64))"
proof (intro conjI impI)
  assume f: "\<not> fst (GetVarint32 mem input val32)"
  let ?r = "GetVarint32_loop mem (Slice_data input + Slice_size input) val32 0
              (Slice_data input) 0"
  from f have "fst ?r = None"
    by (cases ?r; cases "fst ?r")
       (auto simp: GetVarint32_def GetVarint32Ptr_def GetVarint32PtrFallback_def Let_def)
  then have "?r = (None, val32)" by (rule GetVarint32_loop_None)
  then show "GetVarint32 mem input val32 = (False, input, val32)"
    by (simp add: GetVarint32_def GetVarint32Ptr_def GetVarint32PtrFallback_def Let_def)
next
  assume f: "\<not> fst (GetVarint64 mem input val64)"
  let ?r = "GetVarint64_loop mem (Slice_data input + Slice_size input) val64 0
              (Slice_data input) 0"
  from f have "fst ?r = None"
    by (cases ?r; cases "fst ?r")
       (auto simp: GetVarint64_def GetVarint64Ptr_def Let_def)
  then have "?r = (None, val64)" by (rule GetVarint64_loop_None)
  then show "GetVarint64 mem input val64 = (False, input, val64)"
    by (simp add: GetVarint64_def GetVarint64Ptr_def Let_def)
qed

theorem GetVarint_failure_witness:
  "GetVarint32 (\<lambda>a. 128) (Slice_of 0 3) 7 = (False, Slice_of 0 3, 7) \<and>
   GetVarint64 (\<lambda>a. 128) (Slice_of 0 3) 7 = (False, Slice_of 0 3, 7)"
proof -
  have 1: "GetVarint32_loop (\<lambda>a. 128) 3 7 0 0 0 = (None, 7)"
    by (rule GetVarint32_loop_reject) simp
  have 2: "GetVarint64_loop (\<lambda>a. 128) 3 7 0 0 0 = (None, 7)"
    by (rule GetVarint64_loop_reject) simp
  have "\<not> fst (GetVarint32 (\<lambda>a. 128) (Slice_of 0 3) 7)"
    by (simp add: GetVarint32_def GetVarint32Ptr_def GetVarint32PtrFallback_def Slice_of_def 1)
  moreover have "\<not> fst (GetVarint64 (\<lambda>a. 128) (Slice_of 0 3) 7)"
    by (simp add: GetVarint64_def GetVarint64Ptr_def Slice_of_def 2)
  ultimately show ?thesis
    using GetVarint_failure_leaves_input_and_value [of "\<lambda>a. 128" "Slice_of 0 3" 7 7]
    by simp
qed

text \<open>
  Claim C3. \<open>GetLengthPrefixedSlice\<close> on the two bytes \<open>0x05 'a'\<close>: the length 5 is
  decoded, one byte remains, and the call returns false with \<open>*input\<close> advanced past the
  length: the slice is no longer the one passed in. The pointer overload fails on the
  same bytes and hands back no position.
\<close>

theorem GetLengthPrefixedSlice_short_input_advances:
  "GetLengthPrefixedSlice (\<lambda>a. if a = 0 then 5 else 97) (Slice_of 0 2) r
     = Inr (False, Slice_of 1 1, r) \<and>
   Slice_of 1 1 \<noteq> Slice_of 0 2 \<and>
   GetLengthPrefixedSlice_ptr (\<lambda>a. if a = 0 then 5 else 97) 0 2 r = (None, r)"
  by (simp add: GetLengthPrefixedSlice_def GetLengthPrefixedSlice_ptr_def GetVarint32_def
      GetVarint32Ptr_def GetVarint32PtrFallback_def Slice_of_def loop32_last)

subsection \<open>Encoding followed by decoding\<close>

lemma m127: "(x :: 'a::len word) AND 127 = take_bit 7 x"
proof -
  have "(127 :: 'a word) = mask 7" by (simp add: mask_eq_exp_minus_1)
  then show ?thesis by (simp add: take_bit_eq_mask)
qed

lemma b128: "(128 :: 'a::len word) = push_bit 7 1"
  by simp

lemma upper: "(v :: 'a::len word) < 2 ^ k \<Longrightarrow> k \<le> n \<Longrightarrow> \<not> bit v n"
  by (metis bit_take_bit_iff less_mask_eq not_less take_bit_eq_mask)

lemma upper7: "(v :: 32 word) < 128 \<Longrightarrow> bit v n \<Longrightarrow> n < 7"
  using upper [of v 7 n] by (cases "n < 7") simp_all
lemma upper14: "(v :: 32 word) < 16384 \<Longrightarrow> bit v n \<Longrightarrow> n < 14"
  using upper [of v 14 n] by (cases "n < 14") simp_all
lemma upper21: "(v :: 32 word) < 2097152 \<Longrightarrow> bit v n \<Longrightarrow> n < 21"
  using upper [of v 21 n] by (cases "n < 21") simp_all
lemma upper28: "(v :: 32 word) < 268435456 \<Longrightarrow> bit v n \<Longrightarrow> n < 28"
  using upper [of v 28 n] by (cases "n < 28") simp_all

lemma t2: "(v :: 32 word) < 2 ^ 14 \<Longrightarrow>
  (take_bit 7 (ucast (ucast (v OR 128) :: 8 word))) OR push_bit 7 (ucast (ucast (drop_bit 7 v) :: 8 word)) = v"
  apply (rule bit_eqI)
  apply (simp add: m127 b128 bit_simps del: push_bit_of_1)
  apply (auto dest: upper14)
  done

lemma t5: "
  ((((take_bit 7 (ucast (ucast (v OR 128) :: 8 word))) OR push_bit 7 (take_bit 7 (ucast (ucast (drop_bit 7 v OR 128) :: 8 word))))
  OR push_bit 14 (take_bit 7 (ucast (ucast (drop_bit 14 v OR 128) :: 8 word))))
  OR push_bit 21 (take_bit 7 (ucast (ucast (drop_bit 21 v OR 128) :: 8 word))))
  OR push_bit 28 (ucast (ucast (drop_bit 28 v) :: 8 word))
 = (v::32 word)"
proof (rule bit_eqI)
  fix n :: nat
  assume "possible_bit TYPE(32 word) n"
  then have n: "n < 32" by simp
  consider "n < 7" | "7 \<le> n" "n < 14" | "14 \<le> n" "n < 21" | "21 \<le> n" "n < 28" | "28 \<le> n"
    by linarith
  then show "bit (((((take_bit 7 (ucast (ucast (v OR 128) :: 8 word))) OR push_bit 7 (take_bit 7 (ucast (ucast (drop_bit 7 v OR 128) :: 8 word))))
  OR push_bit 14 (take_bit 7 (ucast (ucast (drop_bit 14 v OR 128) :: 8 word))))
  OR push_bit 21 (take_bit 7 (ucast (ucast (drop_bit 21 v OR 128) :: 8 word))))
  OR push_bit 28 (ucast (ucast (drop_bit 28 v) :: 8 word)) :: 32 word) n = bit v n"
  proof cases
    case 1
    then show ?thesis using n by (auto simp: b128 bit_simps simp del: push_bit_of_1)
  next
    case 2
    then show ?thesis using n by (auto simp: b128 bit_simps simp del: push_bit_of_1)
  next
    case 3
    then show ?thesis using n by (auto simp: b128 bit_simps simp del: push_bit_of_1)
  next
    case 4
    then show ?thesis using n by (auto simp: b128 bit_simps simp del: push_bit_of_1)
  next
    case 5
    then show ?thesis using n by (auto simp: b128 bit_simps simp del: push_bit_of_1)
  qed
qed

lemma hi_set: "bit (ucast ((x :: 32 word) OR 128) :: 8 word) 7"
  by (simp add: bit_simps b128 del: push_bit_of_1)

lemma hi_clear7: "(v :: 32 word) < 128 \<Longrightarrow> \<not> bit (ucast v :: 8 word) 7"
  by (auto simp: bit_simps dest: upper7)
lemma hi_clear14: "(v :: 32 word) < 16384 \<Longrightarrow> \<not> bit (ucast (drop_bit 7 v) :: 8 word) 7"
  by (auto simp: bit_simps dest: upper14)
lemma hi_clear21: "(v :: 32 word) < 2097152 \<Longrightarrow> \<not> bit (ucast (drop_bit 14 v) :: 8 word) 7"
  by (auto simp: bit_simps dest: upper21)
lemma hi_clear28: "(v :: 32 word) < 268435456 \<Longrightarrow> \<not> bit (ucast (drop_bit 21 v) :: 8 word) 7"
  by (auto simp: bit_simps dest: upper28)
lemma hi_clear32: "\<not> bit (ucast (drop_bit 28 (v :: 32 word)) :: 8 word) 7"
  by (auto simp: bit_simps dest: bit_imp_le_length)

lemma t1: "(v :: 32 word) < 128 \<Longrightarrow> ucast (ucast v :: 8 word) = v"
  by (rule bit_eqI) (auto simp: bit_simps dest: upper7)

lemma t3: "(v :: 32 word) < 2097152 \<Longrightarrow>
  ((take_bit 7 (ucast (ucast (v OR 128) :: 8 word))) OR push_bit 7 (take_bit 7 (ucast (ucast (drop_bit 7 v OR 128) :: 8 word))))
  OR push_bit 14 (ucast (ucast (drop_bit 14 v) :: 8 word)) = v"
  apply (rule bit_eqI)
  apply (simp add: m127 b128 bit_simps del: push_bit_of_1)
  apply (auto dest: upper21)
  done

lemma t4: "(v :: 32 word) < 268435456 \<Longrightarrow>
  (((take_bit 7 (ucast (ucast (v OR 128) :: 8 word))) OR push_bit 7 (take_bit 7 (ucast (ucast (drop_bit 7 v OR 128) :: 8 word))))
  OR push_bit 14 (take_bit 7 (ucast (ucast (drop_bit 14 v OR 128) :: 8 word))))
  OR push_bit 21 (ucast (ucast (drop_bit 21 v) :: 8 word)) = v"
  apply (rule bit_eqI)
  apply (simp add: m127 b128 bit_simps del: push_bit_of_1)
  apply (auto dest: upper28)
  done

text \<open>
  Claim C4. For every 32-bit \<open>v\<close>, decoding the bytes that \<open>EncodeVarint32\<close> stored at
  \<open>dst\<close>, with a limit at or past the pointer the encoder returned, returns exactly that
  pointer (one past the terminator byte) and writes \<open>v\<close>.
\<close>

theorem varint32_roundtrip:
  assumes "snd (EncodeVarint32 mem dst v) \<le> limit"
  shows "GetVarint32PtrFallback (fst (EncodeVarint32 mem dst v)) dst limit val =
           (Some (snd (EncodeVarint32 mem dst v)), v)"
proof -
  consider (a) "v < 128" | (b) "\<not> v < 128" "v < 16384" | (c) "\<not> v < 16384" "v < 2097152"
    | (d) "\<not> v < 2097152" "v < 268435456" | (e) "\<not> v < 268435456"
    by blast
  then show ?thesis
  proof cases
    case a
    with assms show ?thesis
      by (simp add: EncodeVarint32_def GetVarint32PtrFallback_def loop32_last hi_clear7 t1)
  next
    case b
    then have "\<not> v < 128" "v < 16384" by simp_all
    with assms show ?thesis
      by (simp add: EncodeVarint32_def GetVarint32PtrFallback_def loop32_more loop32_last
          hi_set hi_clear14 t2)
  next
    case c
    then have "\<not> v < 128" "\<not> v < 16384" "v < 2097152" by (simp_all add: word_less_nat_alt)
    with assms show ?thesis
      by (simp add: EncodeVarint32_def GetVarint32PtrFallback_def loop32_more loop32_last
          hi_set hi_clear21 t3)
  next
    case d
    then have "\<not> v < 128" "\<not> v < 16384" "\<not> v < 2097152" "v < 268435456" by (simp_all add: word_less_nat_alt)
    with assms show ?thesis
      by (simp add: EncodeVarint32_def GetVarint32PtrFallback_def loop32_more loop32_last
          hi_set hi_clear28 t4)
  next
    case e
    then have "\<not> v < 128" "\<not> v < 16384" "\<not> v < 2097152" "\<not> v < 268435456" by (simp_all add: word_less_nat_alt)
    with assms show ?thesis
      by (simp add: EncodeVarint32_def GetVarint32PtrFallback_def loop32_more loop32_last
          hi_set hi_clear32 t5)
  qed
qed

theorem varint32_roundtrip_witness:
  "snd (EncodeVarint32 (\<lambda>a. 0) 0 300) \<le> 2 \<and>
   GetVarint32PtrFallback (fst (EncodeVarint32 (\<lambda>a. 0) 0 300)) 0 2 0 = (Some 2, 300) \<and>
   fst (EncodeVarint32 (\<lambda>a. 0) 0 300) 0 = 172 \<and>
   fst (EncodeVarint32 (\<lambda>a. 0) 0 300) 1 = 2"
proof -
  have b: "(428 :: byte) = 172"
    by (simp add: word_uint_eq_iff)
  have e: "EncodeVarint32 (\<lambda>a. 0) 0 300 = ((\<lambda>a. 0)(0 := 172, 1 := 2), 2)"
    by (simp add: EncodeVarint32_def b)
  have h: "snd (EncodeVarint32 (\<lambda>a. 0) 0 300) \<le> 2"
    by (simp add: e)
  show ?thesis
    using h varint32_roundtrip [OF h, of 0] by (simp add: e)
qed

subsection \<open>The unrolled encoder against the loop encoder\<close>

lemma enc64_more:
  "128 \<le> w \<Longrightarrow> EncodeVarint64 mem p w =
     EncodeVarint64 (mem(p := ucast (w OR 128))) (p + 1) (drop_bit 7 w)"
  by (subst EncodeVarint64.simps) simp

lemma enc64_last: "\<not> 128 \<le> w \<Longrightarrow> EncodeVarint64 mem p w = (mem(p := ucast w), p + 1)"
  by (subst EncodeVarint64.simps) simp

lemma unat_up: "unat (ucast (v :: 32 word) :: 64 word) = unat v"
  by (simp add: unsigned_ucast_eq take_bit_nat_eq_self_iff)
     (rule less_trans [OF unsigned_less], simp)

lemma ge64: "(128 \<le> drop_bit k (ucast (v :: 32 word) :: 64 word)) = (128 * 2 ^ k \<le> unat v)"
proof -
  have "unat (drop_bit k (ucast v :: 64 word)) = unat v div 2 ^ k"
    by (simp only: unat_drop_bit_eq unat_up) (simp add: drop_bit_eq_div)
  then show ?thesis
    by (simp add: word_le_nat_alt less_eq_div_iff_mult_less_eq)
qed

lemma byte_up: "(ucast (drop_bit k (ucast (v :: 32 word) :: 64 word)) :: 8 word) = ucast (drop_bit k v)"
  by (rule bit_eqI) (auto simp: bit_simps dest: bit_imp_le_length)

lemma byte_up_or: "(ucast (drop_bit k (ucast (v :: 32 word) :: 64 word) OR 128) :: 8 word)
    = ucast (drop_bit k v OR 128)"
  by (rule bit_eqI) (auto simp: bit_simps dest: bit_imp_le_length)

lemma ge64_0: "(128 \<le> (ucast (v :: 32 word) :: 64 word)) = (128 \<le> unat v)"
  using ge64 [of 0 v] by simp

lemma unat_lt32: "unat (v :: 32 word) < 4294967296"
  using unsigned_less [of v, where 'a = nat] by simp


lemma Suc_numerals:
  "n + 3 = Suc (Suc (Suc n))" "n + 4 = Suc (Suc (Suc (Suc n)))"
  "n + 5 = Suc (Suc (Suc (Suc (Suc n))))"
  by simp_all

lemma enc64_step:
  "128 * 2 ^ k \<le> unat (v :: 32 word) \<Longrightarrow>
   EncodeVarint64 mem p (drop_bit k (ucast v)) =
   EncodeVarint64 (mem(p := ucast (drop_bit k v OR 128))) (p + 1) (drop_bit (k + 7) (ucast v))"
  by (simp add: enc64_more ge64 byte_up_or add.commute)

lemma enc64_stop:
  "\<not> 128 * 2 ^ k \<le> unat (v :: 32 word) \<Longrightarrow>
   EncodeVarint64 mem p (drop_bit k (ucast v)) = (mem(p := ucast (drop_bit k v)), p + 1)"
  by (simp add: enc64_last ge64 byte_up)

text \<open>
  Claim C10. For every 32-bit \<open>v\<close>, \<open>EncodeVarint32\<close> stores the same bytes at the same
  addresses and returns the same pointer as \<open>EncodeVarint64\<close> on \<open>v\<close> widened to 64 bits.
\<close>

theorem EncodeVarint32_eq_EncodeVarint64:
  "EncodeVarint32 mem dst v = EncodeVarint64 mem dst (ucast v)"
proof -
  let ?w = "ucast v :: 64 word"
  have start: "EncodeVarint64 mem dst ?w = EncodeVarint64 mem dst (drop_bit 0 ?w)"
    by simp
  consider (a) "unat v < 128" | (b) "128 \<le> unat v" "unat v < 16384"
    | (c) "16384 \<le> unat v" "unat v < 2097152"
    | (d) "2097152 \<le> unat v" "unat v < 268435456" | (e) "268435456 \<le> unat v"
    by linarith
  then show ?thesis
  proof cases
    case a
    note start
    also have "EncodeVarint64 mem dst (drop_bit 0 ?w) = (mem(dst := ucast (drop_bit 0 v)), dst + 1)"
      using a by (intro enc64_stop) simp
    finally show ?thesis
      using a by (simp add: EncodeVarint32_def word_less_nat_alt Suc_numerals)
  next
    case b
    note start
    also have "EncodeVarint64 mem dst (drop_bit 0 ?w) =
        EncodeVarint64 (mem(dst := ucast (drop_bit 0 v OR 128))) (dst + 1) (drop_bit (0 + 7) ?w)"
      using b by (intro enc64_step) simp
    also have "\<dots> = (mem(dst := ucast (drop_bit 0 v OR 128), dst + 1 := ucast (drop_bit (0 + 7) v)),
        dst + 1 + 1)"
      using b by (intro enc64_stop) simp
    finally show ?thesis
      using b by (simp add: EncodeVarint32_def word_less_nat_alt Suc_numerals)
  next
    case c
    note start
    also have "EncodeVarint64 mem dst (drop_bit 0 ?w) =
        EncodeVarint64 (mem(dst := ucast (drop_bit 0 v OR 128))) (dst + 1) (drop_bit (0 + 7) ?w)"
      using c by (intro enc64_step) simp
    also have "\<dots> = EncodeVarint64 (mem(dst := ucast (drop_bit 0 v OR 128),
          dst + 1 := ucast (drop_bit (0 + 7) v OR 128))) (dst + 1 + 1) (drop_bit (0 + 7 + 7) ?w)"
      using c by (intro enc64_step) simp
    also have "\<dots> = (mem(dst := ucast (drop_bit 0 v OR 128),
          dst + 1 := ucast (drop_bit (0 + 7) v OR 128),
          dst + 1 + 1 := ucast (drop_bit (0 + 7 + 7) v)), dst + 1 + 1 + 1)"
      using c by (intro enc64_stop) simp
    finally show ?thesis
      using c by (simp add: EncodeVarint32_def word_less_nat_alt Suc_numerals)
  next
    case d
    note start
    also have "EncodeVarint64 mem dst (drop_bit 0 ?w) =
        EncodeVarint64 (mem(dst := ucast (drop_bit 0 v OR 128))) (dst + 1) (drop_bit (0 + 7) ?w)"
      using d by (intro enc64_step) simp
    also have "\<dots> = EncodeVarint64 (mem(dst := ucast (drop_bit 0 v OR 128),
          dst + 1 := ucast (drop_bit (0 + 7) v OR 128))) (dst + 1 + 1) (drop_bit (0 + 7 + 7) ?w)"
      using d by (intro enc64_step) simp
    also have "\<dots> = EncodeVarint64 (mem(dst := ucast (drop_bit 0 v OR 128),
          dst + 1 := ucast (drop_bit (0 + 7) v OR 128),
          dst + 1 + 1 := ucast (drop_bit (0 + 7 + 7) v OR 128)))
          (dst + 1 + 1 + 1) (drop_bit (0 + 7 + 7 + 7) ?w)"
      using d by (intro enc64_step) simp
    also have "\<dots> = (mem(dst := ucast (drop_bit 0 v OR 128),
          dst + 1 := ucast (drop_bit (0 + 7) v OR 128),
          dst + 1 + 1 := ucast (drop_bit (0 + 7 + 7) v OR 128),
          dst + 1 + 1 + 1 := ucast (drop_bit (0 + 7 + 7 + 7) v)), dst + 1 + 1 + 1 + 1)"
      using d by (intro enc64_stop) simp
    finally show ?thesis
      using d by (simp add: EncodeVarint32_def word_less_nat_alt Suc_numerals)
  next
    case e
    note start
    also have "EncodeVarint64 mem dst (drop_bit 0 ?w) =
        EncodeVarint64 (mem(dst := ucast (drop_bit 0 v OR 128))) (dst + 1) (drop_bit (0 + 7) ?w)"
      using e by (intro enc64_step) simp
    also have "\<dots> = EncodeVarint64 (mem(dst := ucast (drop_bit 0 v OR 128),
          dst + 1 := ucast (drop_bit (0 + 7) v OR 128))) (dst + 1 + 1) (drop_bit (0 + 7 + 7) ?w)"
      using e by (intro enc64_step) simp
    also have "\<dots> = EncodeVarint64 (mem(dst := ucast (drop_bit 0 v OR 128),
          dst + 1 := ucast (drop_bit (0 + 7) v OR 128),
          dst + 1 + 1 := ucast (drop_bit (0 + 7 + 7) v OR 128)))
          (dst + 1 + 1 + 1) (drop_bit (0 + 7 + 7 + 7) ?w)"
      using e by (intro enc64_step) simp
    also have "\<dots> = EncodeVarint64 (mem(dst := ucast (drop_bit 0 v OR 128),
          dst + 1 := ucast (drop_bit (0 + 7) v OR 128),
          dst + 1 + 1 := ucast (drop_bit (0 + 7 + 7) v OR 128),
          dst + 1 + 1 + 1 := ucast (drop_bit (0 + 7 + 7 + 7) v OR 128)))
          (dst + 1 + 1 + 1 + 1) (drop_bit (0 + 7 + 7 + 7 + 7) ?w)"
      using e by (intro enc64_step) simp
    also have "\<dots> = (mem(dst := ucast (drop_bit 0 v OR 128),
          dst + 1 := ucast (drop_bit (0 + 7) v OR 128),
          dst + 1 + 1 := ucast (drop_bit (0 + 7 + 7) v OR 128),
          dst + 1 + 1 + 1 := ucast (drop_bit (0 + 7 + 7 + 7) v OR 128),
          dst + 1 + 1 + 1 + 1 := ucast (drop_bit (0 + 7 + 7 + 7 + 7) v)), dst + 1 + 1 + 1 + 1 + 1)"
      using unat_lt32 [of v] by (intro enc64_stop) simp
    finally show ?thesis
      using e by (simp add: EncodeVarint32_def word_less_nat_alt Suc_numerals)
  qed
qed

section \<open>Properties of the byte-range comparison\<close>

lemma byte_diff_sign:
  "(uint (a :: byte) < uint b) = (a < b)"
  "(uint (a :: byte) = uint b) = (a = b)"
  by (simp_all add: word_less_def word_uint_eq_iff)

lemma bytes_of_0: "bytes_of mem (Slice_of p 0) = []"
  by (simp add: bytes_of_def Slice_of_def)

lemma bytes_of_Suc: "bytes_of mem (Slice_of p (Suc n)) = mem p # bytes_of mem (Slice_of (Suc p) n)"
  by (simp add: bytes_of_def Slice_of_def upt_conv_Cons del: upt_Suc)

lemma compare_0_left: "compare mem (Slice_of p 0) (Slice_of q n) = (if 0 < n then - 1 else 0)"
  by (simp add: compare_def Slice_of_def)

lemma compare_0_right: "compare mem (Slice_of p (Suc m)) (Slice_of q 0) = 1"
  by (simp add: compare_def Slice_of_def)

lemma compare_Suc:
  "compare mem (Slice_of p (Suc m)) (Slice_of q (Suc n)) =
     (if mem p = mem q then compare mem (Slice_of (Suc p) m) (Slice_of (Suc q) n)
      else int (unat (mem p)) - int (unat (mem q)))"
  by (simp add: compare_def Slice_of_def Let_def byte_diff_sign)

lemma compare_lex:
  "(compare mem (Slice_of p m) (Slice_of q n) < 0)
     = ord_class.lexordp (bytes_of mem (Slice_of p m)) (bytes_of mem (Slice_of q n))"
proof (induction m arbitrary: p q n)
  case 0
  then show ?case
    by (cases n) (simp_all add: compare_0_left bytes_of_0 bytes_of_Suc)
next
  case (Suc m)
  show ?case
  proof (cases n)
    case 0
    then show ?thesis by (simp add: compare_0_right bytes_of_0 bytes_of_Suc)
  next
    case (Suc n')
    with Suc.IH [of "Suc p" "Suc q" n'] show ?thesis
      by (auto simp: compare_Suc bytes_of_Suc byte_diff_sign)
  qed
qed

lemma compare_zero:
  "(compare mem (Slice_of p m) (Slice_of q n) = 0)
     = (bytes_of mem (Slice_of p m) = bytes_of mem (Slice_of q n))"
proof (induction m arbitrary: p q n)
  case 0
  then show ?case
    by (cases n) (simp_all add: compare_0_left bytes_of_0 bytes_of_Suc)
next
  case (Suc m)
  show ?case
  proof (cases n)
    case 0
    then show ?thesis by (simp add: compare_0_right bytes_of_0 bytes_of_Suc)
  next
    case (Suc n')
    with Suc.IH [of "Suc p" "Suc q" n'] show ?thesis
      by (auto simp: compare_Suc bytes_of_Suc byte_diff_sign)
  qed
qed

lemma memcmp_zero:
  "(memcmp mem p q n = 0) = (bytes_of mem (Slice_of p n) = bytes_of mem (Slice_of q n))"
proof (induction n arbitrary: p q)
  case 0
  then show ?case by (simp add: bytes_of_0)
next
  case (Suc n)
  with Suc.IH [of "Suc p" "Suc q"] show ?case
    by (auto simp: bytes_of_Suc byte_diff_sign)
qed

lemma Slice_of_fields: "Slice_of (Slice_data a) (Slice_size a) = a"
  by (simp add: Slice_of_def)

text \<open>
  Claim C8. \<open>a.compare(b)\<close> is negative iff the bytes of \<open>a\<close> precede the bytes of \<open>b\<close> in
  the lexicographic order of unsigned bytes (a proper prefix precedes), zero iff the two
  ranges have the same length and the same bytes (which is what \<open>operator==\<close> returns),
  and positive in every other case.
\<close>

theorem compare_three_way:
  "(compare mem a b < 0 \<longleftrightarrow> ord_class.lexordp (bytes_of mem a) (bytes_of mem b)) \<and>
   (compare mem a b = 0 \<longleftrightarrow>
      Slice_size a = Slice_size b \<and> bytes_of mem a = bytes_of mem b) \<and>
   (compare mem a b = 0 \<longleftrightarrow> operator_eq mem a b) \<and>
   (compare mem a b > 0 \<longleftrightarrow>
      \<not> ord_class.lexordp (bytes_of mem a) (bytes_of mem b) \<and>
      \<not> (Slice_size a = Slice_size b \<and> bytes_of mem a = bytes_of mem b))"
proof -
  have lt: "compare mem a b < 0 \<longleftrightarrow> ord_class.lexordp (bytes_of mem a) (bytes_of mem b)"
    using compare_lex [of mem "Slice_data a" "Slice_size a" "Slice_data b" "Slice_size b"]
    by (simp only: Slice_of_fields)
  have eq0: "compare mem a b = 0 \<longleftrightarrow> bytes_of mem a = bytes_of mem b"
    using compare_zero [of mem "Slice_data a" "Slice_size a" "Slice_data b" "Slice_size b"]
    by (simp only: Slice_of_fields)
  have len: "bytes_of mem a = bytes_of mem b \<Longrightarrow> Slice_size a = Slice_size b"
    using map_eq_imp_length_eq [of mem "[Slice_data a ..< Slice_data a + Slice_size a]"
        mem "[Slice_data b ..< Slice_data b + Slice_size b]"]
    by (simp add: bytes_of_def)
  have eq: "compare mem a b = 0 \<longleftrightarrow>
      Slice_size a = Slice_size b \<and> bytes_of mem a = bytes_of mem b"
    using eq0 len by blast
  have "operator_eq mem a b \<longleftrightarrow> Slice_size a = Slice_size b \<and>
      bytes_of mem (Slice_of (Slice_data a) (Slice_size a)) =
      bytes_of mem (Slice_of (Slice_data b) (Slice_size a))"
    by (simp add: operator_eq_def memcmp_zero)
  then have op: "operator_eq mem a b \<longleftrightarrow>
      Slice_size a = Slice_size b \<and> bytes_of mem a = bytes_of mem b"
    using Slice_of_fields [of a] Slice_of_fields [of b] by metis
  have gt: "compare mem a b > 0 \<longleftrightarrow> \<not> compare mem a b < 0 \<and> \<not> compare mem a b = 0"
    by linarith
  show ?thesis
    using lt eq op gt by blast
qed

section \<open>Properties of the arena\<close>

text \<open>
  Claim C6, as the code has it. A request of more than 1024 bytes that does not fit in
  what remains of the current block goes to the host. When the host supplies the \<open>n\<close>
  bytes, the array of exactly \<open>n\<close> bytes is appended to \<open>blocks_\<close> and returned, and
  \<open>alloc_ptr_\<close> and \<open>alloc_bytes_remaining_\<close> keep their values. When the host cannot,
  \<open>new\<close> throws and the call ends with that failure.
\<close>

theorem Allocate_large_dedicated_slab:
  assumes "1024 < n" and "alloc_bytes_remaining a < n"
  shows "Allocate new_char (h, a) n =
           (case new_char h n of
              None \<Rightarrow> Inl OutOfMemory
            | Some r \<Rightarrow>
                Inr (r, h @ [(r, n)],
                     a\<lparr>blocks := blocks a @ [r],
                       memory_usage := memory_usage a + (n + 8)\<rparr>))"
proof -
  from assms(1) have pos: "0 < n"
    by (simp add: word_less_nat_alt)
  from assms(2) have "\<not> n \<le> alloc_bytes_remaining a" by simp
  with pos assms(1) show ?thesis
    by (simp add: Allocate_def AllocateFallback_def AllocateNewBlock_def kBlockSize_def Let_def)
qed

theorem Allocate_large_dedicated_slab_witness:
  "(1024 :: size_t) < 5000 \<and>
   alloc_bytes_remaining
     \<lparr>alloc_ptr = 8589934593, alloc_bytes_remaining = 4095, blocks = [8589934592],
      memory_usage = 4104\<rparr> < 5000 \<and>
   Allocate sample_new_char
     ([(8589934592, 4096)],
      \<lparr>alloc_ptr = 8589934593, alloc_bytes_remaining = 4095, blocks = [8589934592],
       memory_usage = 4104\<rparr>) 5000 =
     Inr (17179869184, [(8589934592, 4096), (17179869184, 5000)],
          \<lparr>alloc_ptr = 8589934593, alloc_bytes_remaining = 4095,
           blocks = [8589934592, 17179869184], memory_usage = 9112\<rparr>) \<and>
   Allocate sample_new_char
     ([(8589934592, 4096)],
      \<lparr>alloc_ptr = 8589934593, alloc_bytes_remaining = 4095, blocks = [8589934592],
       memory_usage = 4104\<rparr>) 9223372036854775808 = Inl OutOfMemory"
proof -
  let ?a = "\<lparr>alloc_ptr = 8589934593, alloc_bytes_remaining = 4095, blocks = [8589934592],
             memory_usage = 4104\<rparr> :: Arena"
  have 1: "(1024 :: size_t) < 5000" by simp
  have 2: "alloc_bytes_remaining ?a < 5000" by simp
  have 3: "(1024 :: size_t) < 9223372036854775808" by simp
  have 4: "alloc_bytes_remaining ?a < 9223372036854775808" by simp
  show ?thesis
    using 1 2
      Allocate_large_dedicated_slab [OF 1 2, of sample_new_char "[(8589934592, 4096)]"]
      Allocate_large_dedicated_slab [OF 3 4, of sample_new_char "[(8589934592, 4096)]"]
    by (simp add: sample_new_char_def)
qed

text \<open>
  Claim C6, as stated, fails where the request fits: after \<open>Allocate(1)\<close> on a fresh arena
  4095 bytes remain, and \<open>Allocate(2000)\<close> is served by the bump path. No array is appended
  and both \<open>alloc_ptr_\<close> and \<open>alloc_bytes_remaining_\<close> change.
\<close>

theorem Allocate_large_bump_counterexample:
  "(1024 :: size_t) < 2000 \<and>
   Allocate sample_new_char ([], Arena_init) 1 =
     Inr (8589934592, [(8589934592, 4096)],
          \<lparr>alloc_ptr = 8589934593, alloc_bytes_remaining = 4095, blocks = [8589934592],
           memory_usage = 4104\<rparr>) \<and>
   Allocate sample_new_char
     ([(8589934592, 4096)],
      \<lparr>alloc_ptr = 8589934593, alloc_bytes_remaining = 4095, blocks = [8589934592],
       memory_usage = 4104\<rparr>) 2000 =
     Inr (8589934593, [(8589934592, 4096)],
          \<lparr>alloc_ptr = 8589936593, alloc_bytes_remaining = 2095, blocks = [8589934592],
           memory_usage = 4104\<rparr>)"
  by (simp add: Allocate_def AllocateFallback_def AllocateNewBlock_def kBlockSize_def
      sample_new_char_def Arena_init_def Let_def)

section \<open>Properties of the skip list\<close>

subsection \<open>The comparator\<close>

lemma cmp_flip: "comparator_ok c \<Longrightarrow> (c a b < 0) = (c b a > 0)"
  by (simp add: comparator_ok_def)

lemma cmp_refl: "comparator_ok c \<Longrightarrow> c a a = 0"
  using cmp_flip [of c a a] by linarith

lemma cmp_sym: "comparator_ok c \<Longrightarrow> c a b = 0 \<Longrightarrow> c b a = 0"
  using cmp_flip [of c a b] cmp_flip [of c b a] by linarith

lemma cmp_trans: "comparator_ok c \<Longrightarrow> c a b < 0 \<Longrightarrow> c b d < 0 \<Longrightarrow> c a d < 0"
  unfolding comparator_ok_def by blast

lemma cmp_eq_less: "comparator_ok c \<Longrightarrow> c a b = 0 \<Longrightarrow> c b d < 0 \<Longrightarrow> c a d < 0"
  unfolding comparator_ok_def by blast


lemma cmp_irrefl: "comparator_ok c \<Longrightarrow> \<not> c a a < 0"
  by (simp add: cmp_refl)

lemma cmp_asym: "comparator_ok c \<Longrightarrow> c a b < 0 \<Longrightarrow> \<not> c b a < 0"
  using cmp_flip [of c a b] by simp

lemma cmp_cases:
  "comparator_ok c \<Longrightarrow> c a b < 0 \<or> c a b = 0 \<or> c b a < 0"
  using cmp_flip [of c b a] by linarith

subsection \<open>Reading and writing forward pointers\<close>

lemma Node_Next_append:
  "x < length ns \<Longrightarrow> Node_Next (ns @ ms) x L = Node_Next ns x L"
  by (simp add: Node_Next_def has_slot_def nth_append)

lemma has_slot_new:
  "has_slot (ns @ [\<lparr>Node_key = k, Node_next = replicate h None\<rparr>]) (length ns) L = (L < h)"
  by (simp add: has_slot_def)

lemma Next_has_slot: "Node_Next ns x L = Inr u \<Longrightarrow> has_slot ns x L"
  by (simp add: Node_Next_def split: if_splits)

lemma Node_SetNext_ok:
  "has_slot ns x L \<Longrightarrow>
   \<exists>ns'. Node_SetNext ns x L v = Inr ns' \<and> length ns' = length ns \<and>
     (\<forall>y. Node_key (ns' ! y) = Node_key (ns ! y)) \<and>
     (\<forall>y l. has_slot ns' y l = has_slot ns y l) \<and>
     (\<forall>y l. Node_Next ns' y l = (if y = x \<and> l = L then Inr v else Node_Next ns y l))"
  by (auto simp: Node_Next_def Node_SetNext_def has_slot_def nth_list_update split: if_splits)

subsection \<open>Chains of forward pointers\<close>

lemma chain_cong:
  "(\<forall>y \<in> set (x # ys). Node_Next ns' y L = Node_Next ns y L) \<Longrightarrow>
   level_chain ns' L x ys = level_chain ns L x ys"
  by (induction ys arbitrary: x) auto

lemma chain_nth:
  "level_chain ns L x ys \<Longrightarrow> j \<le> length ys \<Longrightarrow>
   Node_Next ns ((x # ys) ! j) L = Inr (if j < length ys then Some (ys ! j) else None)"
proof (induction ys arbitrary: x j)
  case Nil
  then show ?case by simp
next
  case (Cons y ys)
  show ?case
  proof (cases j)
    case 0
    with Cons.prems show ?thesis by simp
  next
    case (Suc j')
    with Cons.prems Cons.IH [of y j'] show ?thesis by simp
  qed
qed

lemma chain_last:
  "level_chain ns L x ys \<Longrightarrow> Node_Next ns (last (x # ys)) L = Inr None"
  by (induction ys arbitrary: x) auto

lemma chain_valid:
  "level_chain ns L x ys \<Longrightarrow> y \<in> set (x # ys) \<Longrightarrow> \<exists>u. Node_Next ns y L = Inr u"
proof -
  assume c: "level_chain ns L x ys" and "y \<in> set (x # ys)"
  then obtain j where "j < length (x # ys)" "(x # ys) ! j = y"
    by (meson in_set_conv_nth)
  then show ?thesis using chain_nth [OF c, of j] by auto
qed

lemma chain_in_store:
  "level_chain ns L x ys \<Longrightarrow> y \<in> set (x # ys) \<Longrightarrow> y < length ns"
  using chain_valid [of ns L x ys y] by (auto simp: Node_Next_def has_slot_def split: if_splits)

lemma chain_splice:
  "level_chain ns L x (as @ bs) \<Longrightarrow> distinct (x # as @ bs) \<Longrightarrow> n \<notin> set (x # as @ bs) \<Longrightarrow>
   (\<forall>y. y \<noteq> n \<longrightarrow> y \<noteq> last (x # as) \<longrightarrow> Node_Next ns' y L = Node_Next ns y L) \<Longrightarrow>
   Node_Next ns' (last (x # as)) L = Inr (Some n) \<Longrightarrow>
   Node_Next ns' n L = Node_Next ns (last (x # as)) L \<Longrightarrow>
   level_chain ns' L x (as @ n # bs)"
proof (induction as arbitrary: x)
  case Nil
  have same: "\<forall>y \<in> set bs. Node_Next ns' y L = Node_Next ns y L"
    using Nil.prems by auto
  show ?case
  proof (cases bs)
    case Nil
    with Nil.prems show ?thesis by simp
  next
    case (Cons b bs')
    have "level_chain ns' L b bs' = level_chain ns L b bs'"
      using same Cons by (intro chain_cong) auto
    with Nil.prems Cons show ?thesis by simp
  qed
next
  case (Cons a as)
  have "last (a # as) \<in> set (a # as)"
    by (rule last_in_set) simp
  then have "x \<noteq> n" "x \<noteq> last (a # as)"
    using Cons.prems(2,3) by auto
  then have "Node_Next ns' x L = Node_Next ns x L"
    using Cons.prems(4) by simp
  moreover have "level_chain ns' L a (as @ n # bs)"
    using Cons.prems by (intro Cons.IH) auto
  ultimately show ?case using Cons.prems(1) by simp
qed

subsection \<open>The nodes before a key on a sorted level\<close>

lemma takeWhile_prefix_nth:
  "j \<le> length (takeWhile P ys) \<Longrightarrow> (x # takeWhile P ys) ! j = (x # ys) ! j"
  by (cases j) (simp_all add: takeWhile_nth)

lemma takeWhile_holds: "j < length (takeWhile P ys) \<Longrightarrow> P (ys ! j)"
  using nth_mem [of j "takeWhile P ys"] by (auto simp: takeWhile_nth dest: set_takeWhileD)

lemma takeWhile_length_le: "length (takeWhile P ys) \<le> length ys"
  by (rule length_takeWhile_le)

lemma first_not_below:
  "length (takeWhile P ys) < length ys \<Longrightarrow> \<not> P (ys ! length (takeWhile P ys))"
  by (rule nth_length_takeWhile)

lemma dropWhile_first:
  "(case dropWhile P ys of [] \<Rightarrow> None | y # zs \<Rightarrow> Some y) =
     (if length (takeWhile P ys) < length ys then Some (ys ! length (takeWhile P ys)) else None)"
  by (induction ys) auto

lemma last_Cons_takeWhile:
  "last (x # takeWhile P ys) = x \<or>
     (last (x # takeWhile P ys) \<in> set ys \<and> P (last (x # takeWhile P ys)))"
proof (cases "takeWhile P ys = []")
  case True
  then show ?thesis by simp
next
  case False
  then have "last (takeWhile P ys) \<in> set (takeWhile P ys)" by (rule last_in_set)
  then have "last (takeWhile P ys) \<in> set ys \<and> P (last (takeWhile P ys))"
    by (rule set_takeWhileD)
  then show ?thesis using False by simp
qed

lemma below_is_prefix:
  assumes c: "comparator_ok c"
    and s: "sorted_wrt (\<lambda>a b. c a b < 0) (map f ys)"
    and x: "x \<in> set ys" and px: "c (f x) k < 0"
  shows "x \<in> set (takeWhile (\<lambda>y. c (f y) k < 0) ys)"
  using s x
proof (induction ys)
  case Nil
  then show ?case by simp
next
  case (Cons y ys)
  show ?case
  proof (cases "c (f y) k < 0")
    case True
    with Cons show ?thesis by auto
  next
    case False
    have "x \<noteq> y" using False px by auto
    with Cons.prems have "x \<in> set ys" by simp
    with Cons.prems have "c (f y) (f x) < 0" by auto
    with px have "c (f y) k < 0" using cmp_trans [OF c] by blast
    with False show ?thesis by simp
  qed
qed

subsection \<open>The search for the first node at or after a key\<close>

lemma KeyIsAfterNode_Some:
  "y < length (nodes sl) \<Longrightarrow>
   KeyIsAfterNode sl k (Some y) = Inr (compare_fn sl (Node_key (nodes sl ! y)) k < 0)"
  by (simp add: KeyIsAfterNode_def)

lemma KeyIsAfterNode_None: "KeyIsAfterNode sl k None = Inr False"
  by (simp add: KeyIsAfterNode_def)

lemma FindGE_walk:
  assumes ch: "level_chain (nodes sl) L x0 ys"
    and lo: "lo = takeWhile (\<lambda>y. compare_fn sl (Node_key (nodes sl ! y)) k < 0) ys"
    and j: "j \<le> length lo"
  shows "FindGreaterOrEqual_loop sl k prev ((x0 # lo) ! j) L =
     (case set_prev prev L (last (x0 # lo)) of
        Inl e \<Rightarrow> Some (Inl e)
      | Inr prev' \<Rightarrow>
          if L = 0 then
            Some (Inr (case dropWhile (\<lambda>y. compare_fn sl (Node_key (nodes sl ! y)) k < 0) ys of
                         [] \<Rightarrow> None | y # zs \<Rightarrow> Some y, prev'))
          else FindGreaterOrEqual_loop sl k prev' (last (x0 # lo)) (L - 1))"
  using j
proof (induction "length lo - j" arbitrary: j)
  case 0
  then have jl: "j = length lo" by simp
  have x: "(x0 # lo) ! j = last (x0 # lo)"
    using jl by (simp add: last_conv_nth nth_Cons')
  have le: "length lo \<le> length ys" using lo by (simp add: length_takeWhile_le)
  have nx: "Node_Next (nodes sl) (last (x0 # lo)) L =
      Inr (if length lo < length ys then Some (ys ! length lo) else None)"
    using chain_nth [OF ch le] takeWhile_prefix_nth [of "length lo" _ ys x0] x jl lo by simp
  have notafter: "KeyIsAfterNode sl k (if length lo < length ys then Some (ys ! length lo) else None)
      = Inr False"
  proof (cases "length lo < length ys")
    case True
    then have "ys ! length lo \<in> set (x0 # ys)" by simp
    then have "ys ! length lo < length (nodes sl)" by (rule chain_in_store [OF ch])
    moreover have "\<not> compare_fn sl (Node_key (nodes sl ! (ys ! length lo))) k < 0"
      using first_not_below [of "\<lambda>y. compare_fn sl (Node_key (nodes sl ! y)) k < 0" ys] True lo
      by simp
    ultimately show ?thesis using True by (simp add: KeyIsAfterNode_Some)
  next
    case False
    then show ?thesis by (simp add: KeyIsAfterNode_None)
  qed
  show ?case
    unfolding x
    by (subst FindGreaterOrEqual_loop.simps)
       (simp add: nx notafter dropWhile_first lo [symmetric] del: last.simps
          cong: if_cong sum.case_cong)
next
  case (Suc d)
  then have jl: "j < length lo" by simp
  then have jy: "j < length ys" using lo length_takeWhile_le [of _ ys] by (simp add: less_le_trans)
  have xj: "(x0 # lo) ! j = (x0 # ys) ! j"
    using takeWhile_prefix_nth [of j _ ys x0] jl lo by simp
  have nx: "Node_Next (nodes sl) ((x0 # lo) ! j) L = Inr (Some (ys ! j))"
    using chain_nth [OF ch, of j] jy xj by simp
  have "ys ! j \<in> set (x0 # ys)" using jy by simp
  then have st: "ys ! j < length (nodes sl)" by (rule chain_in_store [OF ch])
  have "compare_fn sl (Node_key (nodes sl ! (ys ! j))) k < 0"
    using takeWhile_holds [of j "\<lambda>y. compare_fn sl (Node_key (nodes sl ! y)) k < 0" ys] jl lo
    by simp
  then have after: "KeyIsAfterNode sl k (Some (ys ! j)) = Inr True"
    using st by (simp add: KeyIsAfterNode_Some)
  have nxt: "lo ! j = ys ! j"
    using jl lo by (simp add: takeWhile_nth)
  have "FindGreaterOrEqual_loop sl k prev ((x0 # lo) ! j) L =
        FindGreaterOrEqual_loop sl k prev ((x0 # lo) ! Suc j) L"
    by (subst FindGreaterOrEqual_loop.simps) (simp add: nx after nxt)
  also have "\<dots> = (case set_prev prev L (last (x0 # lo)) of
        Inl e \<Rightarrow> Some (Inl e)
      | Inr prev' \<Rightarrow>
          if L = 0 then
            Some (Inr (case dropWhile (\<lambda>y. compare_fn sl (Node_key (nodes sl ! y)) k < 0) ys of
                         [] \<Rightarrow> None | y # zs \<Rightarrow> Some y, prev'))
          else FindGreaterOrEqual_loop sl k prev' (last (x0 # lo)) (L - 1))"
    using Suc.hyps(2) jl by (intro Suc.hyps(1)) simp_all
  finally show ?case .
qed

lemma sl_inv_level:
  "sl_inv sl cs \<Longrightarrow> L < kMaxHeight \<Longrightarrow>
   level_chain (nodes sl) L 0 (cs ! L) \<and>
   sorted_wrt (\<lambda>a b. compare_fn sl a b < 0) (map (\<lambda>y. Node_key (nodes sl ! y)) (cs ! L)) \<and>
   0 \<notin> set (cs ! L) \<and>
   (max_height sl \<le> L \<longrightarrow> cs ! L = []) \<and>
   (0 < L \<longrightarrow> set (cs ! L) \<subseteq> set (cs ! (L - 1)))"
  by (simp add: sl_inv_def)

lemma pred_at_cases:
  "pred_at sl k ys = 0 \<or>
   (pred_at sl k ys \<in> set ys \<and> compare_fn sl (Node_key (nodes sl ! pred_at sl k ys)) k < 0)"
  unfolding pred_at_def before_key_def
  by (rule last_Cons_takeWhile)

lemma walk_start:
  assumes c: "comparator_ok (compare_fn sl)"
    and s: "sorted_wrt (\<lambda>a b. compare_fn sl a b < 0) (map (\<lambda>y. Node_key (nodes sl ! y)) ys)"
    and x: "x = 0 \<or> (x \<in> set ys \<and> compare_fn sl (Node_key (nodes sl ! x)) k < 0)"
  shows "\<exists>j \<le> length (before_key sl k ys). x = (0 # before_key sl k ys) ! j"
proof (cases "x = 0")
  case True
  then show ?thesis by (intro exI [of _ 0]) simp
next
  case False
  with x have "x \<in> set ys" "compare_fn sl (Node_key (nodes sl ! x)) k < 0" by simp_all
  then have "x \<in> set (before_key sl k ys)"
    unfolding before_key_def
    using below_is_prefix [OF c s, of x k] by simp
  then obtain i where "i < length (before_key sl k ys)" "before_key sl k ys ! i = x"
    by (meson in_set_conv_nth)
  then show ?thesis by (intro exI [of _ "Suc i"]) simp
qed

lemma FindGE_level:
  assumes c: "comparator_ok (compare_fn sl)"
    and ch: "level_chain (nodes sl) L 0 ys"
    and s: "sorted_wrt (\<lambda>a b. compare_fn sl a b < 0) (map (\<lambda>y. Node_key (nodes sl ! y)) ys)"
    and x: "x = 0 \<or> (x \<in> set ys \<and> compare_fn sl (Node_key (nodes sl ! x)) k < 0)"
  shows "FindGreaterOrEqual_loop sl k prev x L =
     (case set_prev prev L (pred_at sl k ys) of
        Inl e \<Rightarrow> Some (Inl e)
      | Inr prev' \<Rightarrow>
          if L = 0 then Some (Inr (first_of (from_key sl k ys), prev'))
          else FindGreaterOrEqual_loop sl k prev' (pred_at sl k ys) (L - 1))"
proof -
  obtain j where j: "j \<le> length (before_key sl k ys)" "x = (0 # before_key sl k ys) ! j"
    using walk_start [OF c s x] by blast
  show ?thesis
    unfolding j(2) pred_at_def from_key_def first_of_def
    using j(1) by (intro FindGE_walk [OF ch]) (simp_all add: before_key_def)
qed

lemma FindGE_descend:
  assumes inv: "sl_inv sl cs" and c: "comparator_ok (compare_fn sl)"
  shows "L < kMaxHeight \<Longrightarrow>
    x = 0 \<or> (x \<in> set (cs ! L) \<and> compare_fn sl (Node_key (nodes sl ! x)) k < 0) \<Longrightarrow>
    (case prev of None \<Rightarrow> True | Some a \<Rightarrow> length a = kMaxHeight) \<Longrightarrow>
    FindGreaterOrEqual_loop sl k prev x L =
      Some (Inr (first_of (from_key sl k (cs ! 0)),
                 map_option (\<lambda>a. map (\<lambda>l. if l \<le> L then Some (pred_at sl k (cs ! l)) else a ! l)
                                   [0..<kMaxHeight]) prev))"
proof (induction L arbitrary: x prev)
  case 0
  note lv = sl_inv_level [OF inv "0.prems"(1)]
  have step: "FindGreaterOrEqual_loop sl k prev x 0 =
     (case set_prev prev 0 (pred_at sl k (cs ! 0)) of
        Inl e \<Rightarrow> Some (Inl e)
      | Inr prev' \<Rightarrow> Some (Inr (first_of (from_key sl k (cs ! 0)), prev')))"
    using FindGE_level [OF c _ _ "0.prems"(2), where prev = prev and L = 0] lv
    by (simp cong: sum.case_cong)
  show ?case
  proof (cases prev)
    case None
    then show ?thesis unfolding step by (simp add: set_prev_def)
  next
    case (Some a)
    with "0.prems"(3) have la: "length a = kMaxHeight" by simp
    have "a[0 := Some (pred_at sl k (cs ! 0))] =
        map (\<lambda>l. if l \<le> 0 then Some (pred_at sl k (cs ! l)) else a ! l) [0..<kMaxHeight]"
      by (rule nth_equalityI) (auto simp: la nth_list_update)
    then show ?thesis unfolding step using Some la "0.prems"(1) by (simp add: set_prev_def)
  qed
next
  case (Suc L)
  note lv = sl_inv_level [OF inv Suc.prems(1)]
  have L: "L < kMaxHeight" using Suc.prems(1) by simp
  let ?p = "pred_at sl k (cs ! Suc L)"
  have step: "FindGreaterOrEqual_loop sl k prev x (Suc L) =
     (case set_prev prev (Suc L) ?p of
        Inl e \<Rightarrow> Some (Inl e)
      | Inr prev' \<Rightarrow> FindGreaterOrEqual_loop sl k prev' ?p L)"
    using FindGE_level [OF c _ _ Suc.prems(2), where prev = prev and L = "Suc L"] lv
    by (simp cong: sum.case_cong)
  have p: "?p = 0 \<or> (?p \<in> set (cs ! L) \<and> compare_fn sl (Node_key (nodes sl ! ?p)) k < 0)"
    using pred_at_cases [of sl k "cs ! Suc L"] lv by auto
  show ?case
  proof (cases prev)
    case None
    have "FindGreaterOrEqual_loop sl k None ?p L =
          Some (Inr (first_of (from_key sl k (cs ! 0)), None))"
      using Suc.IH [OF L p, of None] by simp
    then show ?thesis unfolding step using None by (simp add: set_prev_def)
  next
    case (Some a)
    with Suc.prems(3) have la: "length a = kMaxHeight" by simp
    let ?a' = "a[Suc L := Some ?p]"
    have "FindGreaterOrEqual_loop sl k (Some ?a') ?p L =
          Some (Inr (first_of (from_key sl k (cs ! 0)),
                 Some (map (\<lambda>l. if l \<le> L then Some (pred_at sl k (cs ! l)) else ?a' ! l)
                                   [0..<kMaxHeight])))"
      using Suc.IH [OF L p, of "Some ?a'"] la by simp
    moreover have "map (\<lambda>l. if l \<le> L then Some (pred_at sl k (cs ! l)) else ?a' ! l) [0..<kMaxHeight]
        = map (\<lambda>l. if l \<le> Suc L then Some (pred_at sl k (cs ! l)) else a ! l) [0..<kMaxHeight]"
      using Suc.prems(1) la by (intro map_cong) (auto simp: nth_list_update le_Suc_eq)
    ultimately show ?thesis unfolding step using Some la Suc.prems(1) by (simp add: set_prev_def)
  qed
qed

lemma FindGreaterOrEqual_result:
  assumes inv: "sl_inv sl cs" and c: "comparator_ok (compare_fn sl)"
    and pr: "case prev of None \<Rightarrow> True | Some a \<Rightarrow> length a = kMaxHeight"
  shows "FindGreaterOrEqual sl k prev =
      Some (Inr (first_of (from_key sl k (cs ! 0)),
                 map_option (\<lambda>a. map (\<lambda>l. if l < max_height sl then Some (pred_at sl k (cs ! l))
                                         else a ! l) [0..<kMaxHeight]) prev))"
proof -
  from inv have h: "head sl = 0" "0 < max_height sl" "max_height sl \<le> kMaxHeight"
    by (simp_all add: sl_inv_def)
  then have L: "max_height sl - 1 < kMaxHeight" by simp
  have le: "\<And>l. (l \<le> max_height sl - Suc 0) = (l < max_height sl)"
    using h(2) by auto
  show ?thesis
    using FindGE_descend [OF inv c L, of 0 k prev] pr h
    by (simp add: FindGreaterOrEqual_def le)
qed

lemma strict_sorted_distinct:
  "\<forall>x. \<not> R x x \<Longrightarrow> sorted_wrt R xs \<Longrightarrow> distinct xs"
  by (induction xs) auto

lemma level_distinct:
  assumes c: "comparator_ok (compare_fn sl)"
    and s: "sorted_wrt (\<lambda>a b. compare_fn sl a b < 0) (map (\<lambda>y. Node_key (nodes sl ! y)) ys)"
  shows "distinct ys"
proof -
  have "distinct (map (\<lambda>y. Node_key (nodes sl ! y)) ys)"
    using s cmp_irrefl [OF c] by (intro strict_sorted_distinct [of "\<lambda>a b. compare_fn sl a b < 0"]) auto
  then show ?thesis by (simp add: distinct_map)
qed

lemma from_key_all_not_before:
  assumes c: "comparator_ok (compare_fn sl)"
    and s: "sorted_wrt (\<lambda>a b. compare_fn sl a b < 0) (map (\<lambda>y. Node_key (nodes sl ! y)) ys)"
    and y: "y \<in> set (from_key sl k ys)"
  shows "\<not> compare_fn sl (Node_key (nodes sl ! y)) k < 0"
proof
  assume b: "compare_fn sl (Node_key (nodes sl ! y)) k < 0"
  from y have "y \<in> set ys" unfolding from_key_def by (rule set_dropWhileD)
  then have "y \<in> set (before_key sl k ys)"
    unfolding before_key_def using below_is_prefix [OF c s _ b] by simp
  moreover have "distinct ys" by (rule level_distinct [OF c s])
  then have "set (before_key sl k ys) \<inter> set (from_key sl k ys) = {}"
    using distinct_append [of "before_key sl k ys" "from_key sl k ys"]
    by (simp add: before_key_def from_key_def)
  ultimately show False using y by auto
qed

lemma split_at_key: "before_key sl k ys @ from_key sl k ys = ys"
  by (simp add: before_key_def from_key_def)

lemma before_key_holds:
  "y \<in> set (before_key sl k ys) \<Longrightarrow> compare_fn sl (Node_key (nodes sl ! y)) k < 0"
  unfolding before_key_def by (auto dest: set_takeWhileD)



subsection \<open>Memory for a node\<close>

lemma and7: "(x :: 64 word) AND 7 = take_bit 3 x"
  by (simp add: take_bit_eq_mask mask_eq_exp_minus_1)

lemma align_up: "((p :: 64 word) + (8 - (p AND 7))) AND 7 = 0"
proof -
  have "push_bit 3 (drop_bit 3 p) + take_bit 3 p = p" by (rule bits_ident)
  then have "p + (8 - take_bit 3 p) = (push_bit 3 (drop_bit 3 p) + take_bit 3 p) + (8 - take_bit 3 p)"
    by simp
  also have "\<dots> = push_bit 3 (drop_bit 3 p) + 8"
    by (simp only: algebra_simps)
  also have "\<dots> = push_bit 3 (drop_bit 3 p + 1)"
    by (simp add: push_bit_add)
  finally have "p + (8 - take_bit 3 p) = push_bit 3 (drop_bit 3 p + 1)" .
  then have "take_bit 3 (p + (8 - take_bit 3 p)) = take_bit 3 (push_bit 3 (drop_bit 3 p + 1))"
    by simp
  also have "\<dots> = 0"
    by (simp add: take_bit_push_bit)
  finally show ?thesis
    by (simp only: and7)
qed

lemma AllocateFallback_aligned:
  assumes "host_aligned new_char"
  shows "AllocateFallback new_char w bytes = Inl OutOfMemory \<or>
         (\<exists>p h a. AllocateFallback new_char w bytes = Inr (p, h, a) \<and> p AND 7 = 0)"
proof -
  obtain h a where w: "w = (h, a)" by (cases w)
  have al: "\<And>n p. new_char h n = Some p \<Longrightarrow> p AND 7 = 0"
    using assms unfolding host_aligned_def by blast
  show ?thesis
    unfolding w AllocateFallback_def AllocateNewBlock_def
    by (auto simp: Let_def dest: al split: option.splits)
qed

lemma AllocateAligned_result:
  assumes "host_aligned new_char"
  shows "AllocateAligned new_char w bytes = Inl OutOfMemory \<or>
         (\<exists>p h a. AllocateAligned new_char w bytes = Inr (p, h, a))"
proof -
  obtain h a where w: "w = (h, a)" by (cases w)
  define slop where "slop = (if alloc_ptr a AND 7 = 0 then 0 else 8 - (alloc_ptr a AND 7))"
  have fast: "(alloc_ptr a + slop) AND 7 = 0"
    using align_up [of "alloc_ptr a"] by (simp add: slop_def)
  have unf: "AllocateAligned new_char (h, a) bytes =
      (case (if bytes + slop \<le> alloc_bytes_remaining a then
                 Inr (alloc_ptr a + slop, h,
                      a\<lparr>alloc_ptr := alloc_ptr a + (bytes + slop),
                        alloc_bytes_remaining := alloc_bytes_remaining a - (bytes + slop)\<rparr>)
               else AllocateFallback new_char (h, a) bytes) of
           Inl e \<Rightarrow> Inl e
         | Inr (result, h', a') \<Rightarrow>
             if result AND 7 = 0 then Inr (result, h', a') else Inl AssertionFailed)"
    by (simp add: AllocateAligned_def Let_def slop_def cong: sum.case_cong)
  show ?thesis
  proof (cases "bytes + slop \<le> alloc_bytes_remaining a")
    case True
    then show ?thesis unfolding w unf using fast by simp
  next
    case False
    from AllocateFallback_aligned [OF assms, of "(h, a)" bytes]
    show ?thesis
    proof
      assume "AllocateFallback new_char (h, a) bytes = Inl OutOfMemory"
      then show ?thesis unfolding w unf using False by simp
    next
      assume "\<exists>p h' a'. AllocateFallback new_char (h, a) bytes = Inr (p, h', a') \<and> p AND 7 = 0"
      then obtain p h' a' where "AllocateFallback new_char (h, a) bytes = Inr (p, h', a')"
        "p AND 7 = 0" by blast
      then show ?thesis unfolding w unf using False by simp
    qed
  qed
qed

lemma NewNode_result:
  assumes "host_aligned new_char"
  shows "NewNode new_char sizeof_Node w ns k height = Inl OutOfMemory \<or>
         (\<exists>w'. NewNode new_char sizeof_Node w ns k height =
                  Inr (w', ns @ [\<lparr>Node_key = k, Node_next = replicate height None\<rparr>], length ns))"
  using AllocateAligned_result [OF assms, of w "sizeof_Node + 8 * (of_nat height - 1)"]
  by (auto simp: NewNode_def)

subsection \<open>The height of a new node\<close>

declare RandomHeight_loop.simps [simp del]

lemma RandomHeight_loop_bounds:
  "RandomHeight_loop rnd_next h0 r = (h, r') \<Longrightarrow> h0 \<le> h \<and> (h0 \<le> kMaxHeight \<longrightarrow> h \<le> kMaxHeight)"
proof (induction rnd_next h0 r rule: RandomHeight_loop.induct)
  case (1 rnd_next height r)
  show ?case
  proof (cases "height < kMaxHeight")
    case False
    with "1.prems" show ?thesis
      by (simp add: RandomHeight_loop.simps [of rnd_next height r])
  next
    case True
    obtain v r1 where n: "rnd_next r = (v, r1)" by (cases "rnd_next r")
    show ?thesis
    proof (cases "v mod 4 = 0")
      case True
      with \<open>height < kMaxHeight\<close> n "1.prems"
      have "RandomHeight_loop rnd_next (height + 1) r1 = (h, r')"
        by (simp add: RandomHeight_loop.simps [of rnd_next height r])
      with "1.IH" [OF \<open>height < kMaxHeight\<close> n [symmetric] refl True]
      show ?thesis using \<open>height < kMaxHeight\<close> by auto
    next
      case False
      with \<open>height < kMaxHeight\<close> n "1.prems" show ?thesis
        by (simp add: RandomHeight_loop.simps [of rnd_next height r])
    qed
  qed
qed

lemma RandomHeight_result:
  "\<exists>h r'. RandomHeight rnd_next r = Inr (h, r') \<and> 0 < h \<and> h \<le> kMaxHeight"
proof -
  obtain h r' where l: "RandomHeight_loop rnd_next 1 r = (h, r')"
    by (cases "RandomHeight_loop rnd_next 1 r")
  from RandomHeight_loop_bounds [OF l] have "1 \<le> h" "h \<le> kMaxHeight"
    by (simp_all add: kMaxHeight_def)
  then show ?thesis unfolding RandomHeight_def l by simp
qed

subsection \<open>The new levels of \<open>prev\<close>\<close>

declare Insert_fill_prev.simps [simp del]

lemma Insert_fill_prev_result:
  "height \<le> length prev \<Longrightarrow>
   Insert_fill_prev prev hnode i height =
     Inr (map (\<lambda>l. if i \<le> l \<and> l < height then Some hnode else prev ! l) [0..<length prev])"
proof (induction prev hnode i height rule: Insert_fill_prev.induct)
  case (1 prev hnode i height)
  show ?case
  proof (cases "i < height")
    case False
    then have "map (\<lambda>l. if i \<le> l \<and> l < height then Some hnode else prev ! l) [0..<length prev] = prev"
      by (intro nth_equalityI) auto
    with False show ?thesis
      by (simp add: Insert_fill_prev.simps [of prev hnode i height])
  next
    case True
    with "1.prems" have il: "i < length prev" by simp
    have "Insert_fill_prev prev hnode i height =
          Insert_fill_prev (prev[i := Some hnode]) hnode (i + 1) height"
      using True il by (simp add: Insert_fill_prev.simps [of prev hnode i height])
    also have "\<dots> = Inr (map (\<lambda>l. if i + 1 \<le> l \<and> l < height then Some hnode
                               else prev[i := Some hnode] ! l) [0..<length prev])"
      using "1.IH" [OF True il] "1.prems" by simp
    also have "map (\<lambda>l. if i + 1 \<le> l \<and> l < height then Some hnode
                               else prev[i := Some hnode] ! l) [0..<length prev]
        = map (\<lambda>l. if i \<le> l \<and> l < height then Some hnode else prev ! l) [0..<length prev]"
      using True by (intro map_cong) (auto simp: nth_list_update)
    finally show ?thesis .
  qed
qed

subsection \<open>Linking the new node\<close>

declare Insert_link.simps [simp del]

lemma Insert_link_result:
  "h \<le> length prev \<Longrightarrow>
   (\<forall>l. i \<le> l \<and> l < h \<longrightarrow>
      (\<exists>p u. prev ! l = Some p \<and> p \<noteq> n \<and> Node_Next ns p l = Inr u) \<and>
      has_slot ns n l) \<Longrightarrow>
   \<exists>ns'. Insert_link ns prev n i h = Inr ns' \<and> length ns' = length ns \<and>
     (\<forall>y. Node_key (ns' ! y) = Node_key (ns ! y)) \<and>
     (\<forall>y l. Node_Next ns' y l =
        (if i \<le> l \<and> l < h then
           (if y = the (prev ! l) then Inr (Some n)
            else if y = n then Node_Next ns (the (prev ! l)) l
            else Node_Next ns y l)
         else Node_Next ns y l))"
proof (induction ns prev n i h rule: Insert_link.induct)
  case (1 ns prev x i height)
  show ?case
  proof (cases "i < height")
    case False
    then have 1: "Insert_link ns prev x i height = Inr ns"
      by (simp add: Insert_link.simps [of ns prev x i height])
    have 2: "\<forall>y l. Node_Next ns y l =
        (if i \<le> l \<and> l < height then
           (if y = the (prev ! l) then Inr (Some x)
            else if y = x then Node_Next ns (the (prev ! l)) l
            else Node_Next ns y l)
         else Node_Next ns y l)"
      using False by auto
    show ?thesis
      unfolding 1 using 2 by blast
  next
    case True
    with "1.prems"(1) have il: "i < length prev" by simp
    from "1.prems"(2) True obtain p u where
      p: "prev ! i = Some p" "p \<noteq> x" "Node_Next ns p i = Inr u" and
      xs: "has_slot ns x i"
      by (metis le_refl)
    from Node_SetNext_ok [OF xs, of u] obtain ns1 where
      ns1: "Node_SetNext ns x i u = Inr ns1" "length ns1 = length ns"
        "\<forall>y. Node_key (ns1 ! y) = Node_key (ns ! y)"
        "\<forall>y l. Node_Next ns1 y l = (if y = x \<and> l = i then Inr u else Node_Next ns y l)"
        "\<forall>y l. has_slot ns1 y l = has_slot ns y l"
      by blast
    have "Node_Next ns1 p i = Inr u" using ns1(4) p by simp
    then have "has_slot ns1 p i" by (rule Next_has_slot)
    from Node_SetNext_ok [OF this, of "Some x"] obtain ns2 where
      ns2: "Node_SetNext ns1 p i (Some x) = Inr ns2" "length ns2 = length ns1"
        "\<forall>y. Node_key (ns2 ! y) = Node_key (ns1 ! y)"
        "\<forall>y l. Node_Next ns2 y l = (if y = p \<and> l = i then Inr (Some x) else Node_Next ns1 y l)"
        "\<forall>y l. has_slot ns2 y l = has_slot ns1 y l"
      by blast
    have N2: "\<And>y l. Node_Next ns2 y l =
        (if l = i then (if y = p then Inr (Some x) else if y = x then Inr u else Node_Next ns y l)
         else Node_Next ns y l)"
      using ns2(4) ns1(4) by simp
    have step: "Insert_link ns prev x i height = Insert_link ns2 prev x (i + 1) height"
      using True il p ns1(1) ns2(1)
      by (simp add: Insert_link.simps [of ns prev x i height] NoBarrier_Next_def
          NoBarrier_SetNext_def)
    have pre: "\<forall>l. i + 1 \<le> l \<and> l < height \<longrightarrow>
      (\<exists>p u. prev ! l = Some p \<and> p \<noteq> x \<and> Node_Next ns2 p l = Inr u) \<and>
      has_slot ns2 x l"
    proof (intro allI impI)
      fix l assume l: "i + 1 \<le> l \<and> l < height"
      then have "i \<le> l \<and> l < height" "l \<noteq> i" by simp_all
      with "1.prems"(2) show "(\<exists>p u. prev ! l = Some p \<and> p \<noteq> x \<and> Node_Next ns2 p l = Inr u) \<and>
        has_slot ns2 x l"
        by (simp add: N2 ns2(5) ns1(5))
    qed
    from "1.IH" [OF True _ p(1) p(3) [unfolded NoBarrier_Next_def [symmetric]]
        ns1(1) [unfolded NoBarrier_SetNext_def [symmetric]] ns2(1) "1.prems"(1) pre]
      il
    obtain ns' where
      r: "Insert_link ns2 prev x (i + 1) height = Inr ns'" "length ns' = length ns2"
        "\<forall>y. Node_key (ns' ! y) = Node_key (ns2 ! y)"
        "\<forall>y l. Node_Next ns' y l =
        (if i + 1 \<le> l \<and> l < height then
           (if y = the (prev ! l) then Inr (Some x)
            else if y = x then Node_Next ns2 (the (prev ! l)) l
            else Node_Next ns2 y l)
         else Node_Next ns2 y l)"
      by auto
    have final: "\<forall>y l. Node_Next ns' y l =
        (if i \<le> l \<and> l < height then
           (if y = the (prev ! l) then Inr (Some x)
            else if y = x then Node_Next ns (the (prev ! l)) l
            else Node_Next ns y l)
         else Node_Next ns y l)"
    proof (intro allI)
      fix y l
      show "Node_Next ns' y l =
        (if i \<le> l \<and> l < height then
           (if y = the (prev ! l) then Inr (Some x)
            else if y = x then Node_Next ns (the (prev ! l)) l
            else Node_Next ns y l)
         else Node_Next ns y l)"
      proof (cases "l = i")
        case True
        then show ?thesis using r(4) N2 p \<open>i < height\<close> by simp
      next
        case False
        then have "(i + 1 \<le> l) = (i \<le> l)" by auto
        then show ?thesis using r(4) N2 False by simp
      qed
    qed
    show ?thesis
      unfolding step using r(1,2,3) ns2(2,3) ns1(2,3) final by simp
  qed
qed

subsection \<open>Facts of the invariant\<close>

lemma level_subset0:
  assumes inv: "sl_inv sl cs"
  shows "L < kMaxHeight \<Longrightarrow> set (cs ! L) \<subseteq> set (cs ! 0)"
proof (induction L)
  case 0
  then show ?case by simp
next
  case (Suc L)
  then have "set (cs ! Suc L) \<subseteq> set (cs ! L)"
    using sl_inv_level [OF inv, of "Suc L"] by simp
  with Suc show ?case by auto
qed

lemma level_nodes_lt:
  "sl_inv sl cs \<Longrightarrow> L < kMaxHeight \<Longrightarrow> y \<in> set (cs ! L) \<Longrightarrow> y < length (nodes sl)"
  using sl_inv_level [of sl cs L] chain_in_store [of "nodes sl" L 0 "cs ! L" y] by simp

lemma store_nonempty: "sl_inv sl cs \<Longrightarrow> 0 < length (nodes sl)"
  using sl_inv_level [of sl cs 0] chain_in_store [of "nodes sl" 0 0 "cs ! 0" 0]
  by (simp add: kMaxHeight_def)

lemma pred_at_lt:
  "sl_inv sl cs \<Longrightarrow> L < kMaxHeight \<Longrightarrow> pred_at sl k (cs ! L) < length (nodes sl)"
  using pred_at_cases [of sl k "cs ! L"] store_nonempty [of sl cs] level_nodes_lt [of sl cs L]
  by auto

lemma pred_at_valid:
  assumes inv: "sl_inv sl cs" and L: "L < kMaxHeight"
  shows "\<exists>u. Node_Next (nodes sl) (pred_at sl k (cs ! L)) L = Inr u"
proof -
  have "pred_at sl k (cs ! L) \<in> set (0 # cs ! L)"
    using pred_at_cases [of sl k "cs ! L"] by auto
  then show ?thesis
    using sl_inv_level [OF inv L] chain_valid [of "nodes sl" L 0 "cs ! L"] by blast
qed

lemma pred_at_empty: "pred_at sl k [] = 0"
  by (simp add: pred_at_def before_key_def)

lemma pred_at_last: "pred_at sl k ys = last (0 # before_key sl k ys)"
  by (simp add: pred_at_def)

lemma Node_Next_snoc_other:
  "y \<noteq> length ns \<Longrightarrow> Node_Next (ns @ [m]) y L = Node_Next ns y L"
  by (cases "y < length ns") (simp_all add: Node_Next_def has_slot_def nth_append)

subsection \<open>One level after the new node is linked\<close>

lemma spliced_chain:
  assumes inv: "sl_inv sl cs" and c: "comparator_ok (compare_fn sl)" and L: "L < kMaxHeight"
    and nx: "\<forall>y. Node_Next ns' y L =
        (if y = pred_at sl k (cs ! L) then Inr (Some (length (nodes sl)))
         else if y = length (nodes sl) then Node_Next (nodes sl) (pred_at sl k (cs ! L)) L
         else Node_Next (nodes sl) y L)"
  shows "level_chain ns' L 0
           (before_key sl k (cs ! L) @ length (nodes sl) # from_key sl k (cs ! L))"
proof -
  note lv = sl_inv_level [OF inv L]
  let ?n = "length (nodes sl)"
  have ch: "level_chain (nodes sl) L 0 (before_key sl k (cs ! L) @ from_key sl k (cs ! L))"
    using lv by (simp add: split_at_key)
  have d: "distinct (0 # before_key sl k (cs ! L) @ from_key sl k (cs ! L))"
    using lv level_distinct [OF c, of "cs ! L"] by (simp add: split_at_key)
  have n: "?n \<notin> set (0 # before_key sl k (cs ! L) @ from_key sl k (cs ! L))"
    using level_nodes_lt [OF inv L, of ?n] store_nonempty [OF inv] by (auto simp: split_at_key)
  have pn: "pred_at sl k (cs ! L) \<noteq> ?n"
    using pred_at_lt [OF inv L, of k] by simp
  show ?thesis
  proof (rule chain_splice [OF ch d n])
    show "\<forall>y. y \<noteq> ?n \<longrightarrow> y \<noteq> last (0 # before_key sl k (cs ! L)) \<longrightarrow>
        Node_Next ns' y L = Node_Next (nodes sl) y L"
      using nx by (simp add: pred_at_last)
    show "Node_Next ns' (last (0 # before_key sl k (cs ! L))) L = Inr (Some ?n)"
      using nx by (simp add: pred_at_last del: last.simps)
    show "Node_Next ns' ?n L = Node_Next (nodes sl) (last (0 # before_key sl k (cs ! L))) L"
      using nx pn by (simp add: pred_at_last del: last.simps)
  qed
qed

lemma from_key_after:
  assumes inv: "sl_inv sl cs" and c: "comparator_ok (compare_fn sl)" and L: "L < kMaxHeight"
    and fresh: "\<forall>y \<in> set (cs ! 0). compare_fn sl k (Node_key (nodes sl ! y)) \<noteq> 0"
    and y: "y \<in> set (from_key sl k (cs ! L))"
  shows "compare_fn sl k (Node_key (nodes sl ! y)) < 0"
proof -
  note lv = sl_inv_level [OF inv L]
  have "y \<in> set (cs ! L)" using y split_at_key [of sl k "cs ! L"] by (metis Un_iff set_append)
  then have "y \<in> set (cs ! 0)" using level_subset0 [OF inv L] by auto
  with fresh have "compare_fn sl k (Node_key (nodes sl ! y)) \<noteq> 0" by simp
  moreover have "\<not> compare_fn sl (Node_key (nodes sl ! y)) k < 0"
    using from_key_all_not_before [OF c _ y] lv by simp
  ultimately show ?thesis
    using cmp_cases [OF c, of k "Node_key (nodes sl ! y)"] by auto
qed

lemma spliced_sorted:
  assumes inv: "sl_inv sl cs" and c: "comparator_ok (compare_fn sl)" and L: "L < kMaxHeight"
    and fresh: "\<forall>y \<in> set (cs ! 0). compare_fn sl k (Node_key (nodes sl ! y)) \<noteq> 0"
    and keys: "\<forall>y < length (nodes sl). Node_key (ns' ! y) = Node_key (nodes sl ! y)"
    and newkey: "Node_key (ns' ! length (nodes sl)) = k"
  shows "sorted_wrt (\<lambda>a b. compare_fn sl a b < 0)
           (map (\<lambda>y. Node_key (ns' ! y))
              (before_key sl k (cs ! L) @ length (nodes sl) # from_key sl k (cs ! L)))"
proof -
  note lv = sl_inv_level [OF inv L]
  let ?lo = "before_key sl k (cs ! L)" and ?hi = "from_key sl k (cs ! L)"
  have same: "\<And>ys. set ys \<subseteq> set (cs ! L) \<Longrightarrow>
      map (\<lambda>y. Node_key (ns' ! y)) ys = map (\<lambda>y. Node_key (nodes sl ! y)) ys"
    using keys level_nodes_lt [OF inv L] by (intro map_cong) auto
  have sub: "set ?lo \<subseteq> set (cs ! L)" "set ?hi \<subseteq> set (cs ! L)"
    using split_at_key [of sl k "cs ! L"] by (metis Un_upper1 set_append, metis Un_upper2 set_append)
  have s: "sorted_wrt (\<lambda>a b. compare_fn sl a b < 0)
       (map (\<lambda>y. Node_key (nodes sl ! y)) ?lo @ map (\<lambda>y. Node_key (nodes sl ! y)) ?hi)"
    using lv split_at_key [of sl k "cs ! L"] by (metis map_append)
  have lo: "\<forall>a \<in> set ?lo. compare_fn sl (Node_key (nodes sl ! a)) k < 0"
    by (simp add: before_key_holds)
  have hi: "\<forall>b \<in> set ?hi. compare_fn sl k (Node_key (nodes sl ! b)) < 0"
    by (simp add: from_key_after [OF inv c L fresh])
  show ?thesis
    using s lo hi by (simp add: same [OF sub(1)] same [OF sub(2)] newkey sorted_wrt_append)
qed

lemma inv_after_link:
  assumes inv: "sl_inv sl cs" and c: "comparator_ok (compare_fn sl)"
    and fresh: "\<forall>y \<in> set (cs ! 0). compare_fn sl k (Node_key (nodes sl ! y)) \<noteq> 0"
    and h: "0 < h" "h \<le> kMaxHeight"
    and keys: "\<forall>y < length (nodes sl). Node_key (ns' ! y) = Node_key (nodes sl ! y)"
    and newkey: "Node_key (ns' ! length (nodes sl)) = k"
    and low: "\<forall>y l. l < h \<longrightarrow> Node_Next ns' y l =
        (if y = pred_at sl k (cs ! l) then Inr (Some (length (nodes sl)))
         else if y = length (nodes sl) then Node_Next (nodes sl) (pred_at sl k (cs ! l)) l
         else Node_Next (nodes sl) y l)"
    and high: "\<forall>y l. h \<le> l \<longrightarrow> y \<noteq> length (nodes sl) \<longrightarrow>
        Node_Next ns' y l = Node_Next (nodes sl) y l"
    and cs': "cs' = map (\<lambda>l. if l < h then before_key sl k (cs ! l) @ length (nodes sl) #
                               from_key sl k (cs ! l) else cs ! l) [0..<kMaxHeight]"
    and sl': "sl' = sl\<lparr>nodes := ns', max_height := (if h > max_height sl then h else max_height sl),
                     rnd := r'\<rparr>"
  shows "sl_inv sl' cs'"
proof -
  let ?n = "length (nodes sl)"
  have nth: "\<And>L. L < kMaxHeight \<Longrightarrow> cs' ! L =
      (if L < h then before_key sl k (cs ! L) @ ?n # from_key sl k (cs ! L) else cs ! L)"
    by (simp add: cs')
  have basics: "head sl' = 0" "length cs' = kMaxHeight" "0 < max_height sl'"
    "max_height sl' \<le> kMaxHeight" "compare_fn sl' = compare_fn sl" "nodes sl' = ns'"
    using inv h by (simp_all add: sl' cs' sl_inv_def)
  have sets: "\<And>L. L < kMaxHeight \<Longrightarrow> L < h \<Longrightarrow> set (cs' ! L) = insert ?n (set (cs ! L))"
  proof -
    fix L assume L: "L < kMaxHeight" "L < h"
    have "set (before_key sl k (cs ! L) @ ?n # from_key sl k (cs ! L))
        = insert ?n (set (before_key sl k (cs ! L) @ from_key sl k (cs ! L)))"
      by simp
    then show "set (cs' ! L) = insert ?n (set (cs ! L))"
      using L by (simp only: nth split_at_key if_True)
  qed
  have level: "level_chain ns' L 0 (cs' ! L) \<and>
        sorted_wrt (\<lambda>a b. compare_fn sl a b < 0) (map (\<lambda>y. Node_key (ns' ! y)) (cs' ! L)) \<and>
        0 \<notin> set (cs' ! L) \<and>
        ((if h > max_height sl then h else max_height sl) \<le> L \<longrightarrow> cs' ! L = []) \<and>
        (0 < L \<longrightarrow> set (cs' ! L) \<subseteq> set (cs' ! (L - 1)))" if L: "L < kMaxHeight" for L
  proof -
    note lv = sl_inv_level [OF inv L]
    have n0: "?n \<noteq> 0" using store_nonempty [OF inv] by simp
    show ?thesis
    proof (cases "L < h")
      case True
      have 1: "level_chain ns' L 0 (cs' ! L)"
        using spliced_chain [OF inv c L, of ns' k] low True by (simp add: nth [OF L])
      have 2: "sorted_wrt (\<lambda>a b. compare_fn sl a b < 0) (map (\<lambda>y. Node_key (ns' ! y)) (cs' ! L))"
        using spliced_sorted [OF inv c L fresh keys newkey] True by (simp add: nth [OF L])
      have 3: "0 \<notin> set (cs' ! L)"
        using lv n0 by (simp add: sets [OF L True])
      have 4: "\<not> (if h > max_height sl then h else max_height sl) \<le> L"
        using True by auto
      have 5: "0 < L \<longrightarrow> set (cs' ! L) \<subseteq> set (cs' ! (L - 1))"
      proof
        assume "0 < L"
        then have "L - 1 < kMaxHeight" "L - 1 < h" using L True by simp_all
        then have "set (cs' ! (L - 1)) = insert ?n (set (cs ! (L - 1)))" by (rule sets)
        then show "set (cs' ! L) \<subseteq> set (cs' ! (L - 1))"
          using lv \<open>0 < L\<close> by (auto simp: sets [OF L True])
      qed
      show ?thesis using 1 2 3 4 5 by simp
    next
      case False
      then have eq: "cs' ! L = cs ! L" by (simp add: nth [OF L])
      have lt: "\<forall>y \<in> set (0 # cs ! L). y \<noteq> ?n"
        using level_nodes_lt [OF inv L] store_nonempty [OF inv] by auto
      have 1: "level_chain ns' L 0 (cs ! L)"
      proof -
        have "level_chain ns' L 0 (cs ! L) = level_chain (nodes sl) L 0 (cs ! L)"
          using high False lt by (intro chain_cong) simp
        then show ?thesis using lv by simp
      qed
      have meq: "map (\<lambda>y. Node_key (ns' ! y)) (cs ! L) = map (\<lambda>y. Node_key (nodes sl ! y)) (cs ! L)"
        using keys level_nodes_lt [OF inv L] by (intro map_cong) auto
      have 2: "sorted_wrt (\<lambda>a b. compare_fn sl a b < 0)
          (map (\<lambda>y. Node_key (ns' ! y)) (cs ! L))"
        unfolding meq using lv by simp
      have 4: "(if h > max_height sl then h else max_height sl) \<le> L \<longrightarrow> cs ! L = []"
        using lv by auto
      have 5: "0 < L \<longrightarrow> set (cs ! L) \<subseteq> set (cs' ! (L - 1))"
      proof
        assume "0 < L"
        then have L1: "L - 1 < kMaxHeight" using L by simp
        have "set (cs ! (L - 1)) \<subseteq> set (cs' ! (L - 1))"
        proof (cases "L - 1 < h")
          case True
          then show ?thesis using sets [OF L1 True] by auto
        next
          case False
          then have "cs' ! (L - 1) = cs ! (L - 1)" using nth [OF L1] by simp
          then show ?thesis by simp
        qed
        then show "set (cs ! L) \<subseteq> set (cs' ! (L - 1))"
          using lv \<open>0 < L\<close> by auto
      qed
      show ?thesis using 1 2 4 5 lv by (simp add: eq)
    qed
  qed
  show ?thesis
    unfolding sl_inv_def basics using basics(1-4) level
    by (simp add: sl')
qed

subsection \<open>One insert\<close>

lemma first_of_in: "first_of ys = Some i \<Longrightarrow> i \<in> set ys"
  by (cases ys) (simp_all add: first_of_def)

lemma from_key_subset: "set (from_key sl k ys) \<subseteq> set ys"
  using split_at_key [of sl k ys] by (metis Un_upper2 set_append)

lemma prev_after_find:
  assumes inv: "sl_inv sl cs" and h: "0 < h" "h \<le> kMaxHeight"
    and prev0: "prev0 = map (\<lambda>l. if l < max_height sl then Some (pred_at sl k (cs ! l))
                               else replicate kMaxHeight None ! l) [0..<kMaxHeight]"
  shows "\<exists>prev'. (if h > max_height sl
                   then Insert_fill_prev prev0 (head sl) (max_height sl) h
                   else Inr prev0) = Inr prev' \<and>
           length prev' = kMaxHeight \<and>
           (\<forall>l < h. prev' ! l = Some (pred_at sl k (cs ! l)))"
proof (cases "h > max_height sl")
  case False
  then have "\<forall>l < h. prev0 ! l = Some (pred_at sl k (cs ! l))"
    using h by (simp add: prev0)
  then show ?thesis using False by (simp add: prev0)
next
  case True
  have len: "length prev0 = kMaxHeight" by (simp add: prev0)
  have hd0: "head sl = 0" using inv by (simp add: sl_inv_def)
  let ?p = "map (\<lambda>l. if max_height sl \<le> l \<and> l < h then Some 0 else prev0 ! l) [0..<length prev0]"
  have fill: "Insert_fill_prev prev0 (head sl) (max_height sl) h = Inr ?p"
    using Insert_fill_prev_result [of h prev0 "head sl" "max_height sl"] h len hd0 by simp
  have "\<forall>l < h. ?p ! l = Some (pred_at sl k (cs ! l))"
  proof (intro allI impI)
    fix l assume l: "l < h"
    then have lk: "l < kMaxHeight" using h by simp
    show "?p ! l = Some (pred_at sl k (cs ! l))"
    proof (cases "max_height sl \<le> l")
      case True
      then have "cs ! l = []" using sl_inv_level [OF inv lk] by simp
      then show ?thesis using True l lk len by (simp add: pred_at_empty)
    next
      case False
      then show ?thesis using l lk len by (simp add: prev0)
    qed
  qed
  then show ?thesis using True fill len by simp
qed

lemma Insert_result:
  assumes inv: "sl_inv sl cs" and c: "comparator_ok (compare_fn sl)"
    and fresh: "\<forall>y \<in> set (cs ! 0). compare_fn sl k (Node_key (nodes sl ! y)) \<noteq> 0"
    and host: "host_aligned new_char"
  shows "Insert new_char rnd_next sizeof_Node w sl k = Some (Inl OutOfMemory) \<or>
     (\<exists>w' sl' cs'. Insert new_char rnd_next sizeof_Node w sl k = Some (Inr (w', sl')) \<and>
        sl_inv sl' cs' \<and> compare_fn sl' = compare_fn sl \<and>
        set (map (\<lambda>y. Node_key (nodes sl' ! y)) (cs' ! 0)) =
          insert k (set (map (\<lambda>y. Node_key (nodes sl ! y)) (cs ! 0))))"
proof -
  let ?n = "length (nodes sl)"
  define x where "x = first_of (from_key sl k (cs ! 0))"
  define prev0 where "prev0 = map (\<lambda>l. if l < max_height sl then Some (pred_at sl k (cs ! l))
                               else replicate kMaxHeight None ! l) [0..<kMaxHeight]"
  have k0: "0 < kMaxHeight" by (simp add: kMaxHeight_def)
  have find: "FindGreaterOrEqual sl k (Some (replicate kMaxHeight None)) = Some (Inr (x, Some prev0))"
    using FindGreaterOrEqual_result [OF inv c, of "Some (replicate kMaxHeight None)" k]
    by (simp add: x_def prev0_def)
  have ins: "Insert new_char rnd_next sizeof_Node w sl k =
      Some (Insert_after_find new_char rnd_next sizeof_Node w sl k x prev0)"
    by (simp add: Insert_def find)
  have xin: "\<And>i. x = Some i \<Longrightarrow> i \<in> set (cs ! 0)"
    using first_of_in from_key_subset unfolding x_def by fastforce
  have chk1: "(case x of None \<Rightarrow> True | Some i \<Rightarrow> i < length (nodes sl))"
    using xin level_nodes_lt [OF inv k0] by (cases x) auto
  have chk2: "(case x of None \<Rightarrow> True | Some i \<Rightarrow> \<not> Equal sl k (Node_key (nodes sl ! i)))"
    using xin fresh by (cases x) (auto simp: Equal_def)
  obtain h r' where rh: "RandomHeight rnd_next (rnd sl) = Inr (h, r')" and h: "0 < h" "h \<le> kMaxHeight"
    using RandomHeight_result [of rnd_next "rnd sl"] by blast
  obtain prev' where fp: "(if h > max_height sl
                   then Insert_fill_prev prev0 (head sl) (max_height sl) h
                   else Inr prev0) = Inr prev'"
    and plen: "length prev' = kMaxHeight"
    and pl: "\<forall>l < h. prev' ! l = Some (pred_at sl k (cs ! l))"
    using prev_after_find [OF inv h prev0_def] by blast
  let ?ns1 = "nodes sl @ [\<lparr>Node_key = k, Node_next = replicate h None\<rparr>]"
  from NewNode_result [OF host, of sizeof_Node w "nodes sl" k h]
  show ?thesis
  proof
    assume "NewNode new_char sizeof_Node w (nodes sl) k h = Inl OutOfMemory"
    then have "Insert_after_find new_char rnd_next sizeof_Node w sl k x prev0 = Inl OutOfMemory"
      using chk1 chk2 by (simp add: Insert_after_find_def rh fp)
    then show ?thesis by (simp add: ins)
  next
    assume "\<exists>w'. NewNode new_char sizeof_Node w (nodes sl) k h = Inr (w', ?ns1, ?n)"
    then obtain w' where nn: "NewNode new_char sizeof_Node w (nodes sl) k h = Inr (w', ?ns1, ?n)"
      by blast
    have pre: "\<forall>l. 0 \<le> l \<and> l < h \<longrightarrow>
      (\<exists>p u. prev' ! l = Some p \<and> p \<noteq> ?n \<and> Node_Next ?ns1 p l = Inr u) \<and>
      has_slot ?ns1 ?n l"
    proof (intro allI impI)
      fix l assume "0 \<le> l \<and> l < h"
      then have l: "l < h" and lk: "l < kMaxHeight" using h by simp_all
      have pn: "pred_at sl k (cs ! l) < ?n" by (rule pred_at_lt [OF inv lk])
      obtain u where "Node_Next (nodes sl) (pred_at sl k (cs ! l)) l = Inr u"
        using pred_at_valid [OF inv lk] by blast
      then have "Node_Next ?ns1 (pred_at sl k (cs ! l)) l = Inr u"
        using pn by (simp add: Node_Next_append)
      moreover have "has_slot ?ns1 ?n l"
        using l by (simp add: has_slot_new)
      ultimately show "(\<exists>p u. prev' ! l = Some p \<and> p \<noteq> ?n \<and> Node_Next ?ns1 p l = Inr u) \<and>
        has_slot ?ns1 ?n l"
        using pl l pn by auto
    qed
    have hp: "h \<le> length prev'" using h plen by simp
    from Insert_link_result [OF hp pre] obtain ns' where
      il: "Insert_link ?ns1 prev' ?n 0 h = Inr ns'" and
      len: "length ns' = length ?ns1" and
      ky: "\<forall>y. Node_key (ns' ! y) = Node_key (?ns1 ! y)" and
      nx: "\<forall>y l. Node_Next ns' y l =
        (if 0 \<le> l \<and> l < h then
           (if y = the (prev' ! l) then Inr (Some ?n)
            else if y = ?n then Node_Next ?ns1 (the (prev' ! l)) l
            else Node_Next ?ns1 y l)
         else Node_Next ?ns1 y l)"
      by blast
    define sl' where "sl' = sl\<lparr>nodes := ns',
        max_height := (if h > max_height sl then h else max_height sl), rnd := r'\<rparr>"
    define cs' where "cs' = map (\<lambda>l. if l < h then before_key sl k (cs ! l) @ ?n #
                               from_key sl k (cs ! l) else cs ! l) [0..<kMaxHeight]"
    have res: "Insert_after_find new_char rnd_next sizeof_Node w sl k x prev0 = Inr (w', sl')"
      using chk1 chk2 by (simp add: Insert_after_find_def rh fp nn il sl'_def)
    have keys: "\<forall>y < ?n. Node_key (ns' ! y) = Node_key (nodes sl ! y)"
      using ky by (simp add: nth_append)
    have newkey: "Node_key (ns' ! ?n) = k"
      using ky by simp
    have low: "\<forall>y l. l < h \<longrightarrow> Node_Next ns' y l =
        (if y = pred_at sl k (cs ! l) then Inr (Some ?n)
         else if y = ?n then Node_Next (nodes sl) (pred_at sl k (cs ! l)) l
         else Node_Next (nodes sl) y l)"
    proof (intro allI impI)
      fix y l assume l: "l < h"
      then have lk: "l < kMaxHeight" using h by simp
      have pn: "pred_at sl k (cs ! l) < ?n" by (rule pred_at_lt [OF inv lk])
      have p: "the (prev' ! l) = pred_at sl k (cs ! l)" using pl l by simp
      show "Node_Next ns' y l =
        (if y = pred_at sl k (cs ! l) then Inr (Some ?n)
         else if y = ?n then Node_Next (nodes sl) (pred_at sl k (cs ! l)) l
         else Node_Next (nodes sl) y l)"
        using nx l pn by (simp add: p Node_Next_append Node_Next_snoc_other)
    qed
    have high: "\<forall>y l. h \<le> l \<longrightarrow> y \<noteq> ?n \<longrightarrow> Node_Next ns' y l = Node_Next (nodes sl) y l"
      using nx by (simp add: Node_Next_snoc_other)
    have inv': "sl_inv sl' cs'"
      by (rule inv_after_link [OF inv c fresh h keys newkey low high cs'_def sl'_def])
    have c0: "cs' ! 0 = before_key sl k (cs ! 0) @ ?n # from_key sl k (cs ! 0)"
      using h k0 by (simp add: cs'_def)
    have sub: "\<forall>y \<in> set (cs ! 0). y < ?n"
      using level_nodes_lt [OF inv k0] by blast
    have "set (map (\<lambda>y. Node_key (ns' ! y)) (cs' ! 0)) =
        insert k ((\<lambda>y. Node_key (ns' ! y)) ` set (before_key sl k (cs ! 0) @ from_key sl k (cs ! 0)))"
      using newkey by (simp add: c0 image_Un)
    also have "\<dots> = insert k ((\<lambda>y. Node_key (ns' ! y)) ` set (cs ! 0))"
      by (simp only: split_at_key)
    also have "(\<lambda>y. Node_key (ns' ! y)) ` set (cs ! 0) = (\<lambda>y. Node_key (nodes sl ! y)) ` set (cs ! 0)"
      using keys sub by (intro image_cong) auto
    finally have kset: "set (map (\<lambda>y. Node_key (nodes sl' ! y)) (cs' ! 0)) =
          insert k (set (map (\<lambda>y. Node_key (nodes sl ! y)) (cs ! 0)))"
      by (simp add: sl'_def)
    have cf: "compare_fn sl' = compare_fn sl" by (simp add: sl'_def)
    have "Insert new_char rnd_next sizeof_Node w sl k = Some (Inr (w', sl'))"
      by (simp add: ins res)
    with inv' kset cf show ?thesis by blast
  qed
qed

subsection \<open>A fresh list\<close>

declare SkipList_init_loop.simps [simp del]

lemma stored_prefix_update:
  assumes "i < n"
  shows "(replicate i a @ replicate (n - i) b)[i := a] =
     replicate (Suc i) a @ replicate (n - Suc i) b"
proof -
  from assms obtain m where m: "n - i = Suc m" "n - Suc i = m"
    by (cases "n - i") simp_all
  show ?thesis
    unfolding m by (simp add: list_update_append replicate_app_Cons_same)
qed

lemma SkipList_init_loop_result:
  "i \<le> kMaxHeight \<Longrightarrow>
   SkipList_init_loop
     [\<lparr>Node_key = k0,
       Node_next = replicate i (Some None) @ replicate (kMaxHeight - i) None\<rparr>] 0 i =
     Inr [\<lparr>Node_key = k0, Node_next = replicate kMaxHeight (Some None)\<rparr>]"
proof (induction "kMaxHeight - i" arbitrary: i)
  case 0
  then have "i = kMaxHeight" by simp
  then show ?case
    by (simp add: SkipList_init_loop.simps [of _ 0 kMaxHeight])
next
  case (Suc d)
  then have i: "i < kMaxHeight" by simp
  have "Node_SetNext [\<lparr>Node_key = k0,
       Node_next = replicate i (Some None) @ replicate (kMaxHeight - i) None\<rparr>] 0 i None =
      Inr [\<lparr>Node_key = k0,
       Node_next = replicate (Suc i) (Some None) @ replicate (kMaxHeight - Suc i) None\<rparr>]"
    using i stored_prefix_update [OF i, of "Some None" None]
    by (simp add: Node_SetNext_def has_slot_def)
  then show ?case
    using i Suc.hyps(1) [of "Suc i"] Suc.hyps(2)
    by (simp add: SkipList_init_loop.simps [of _ 0 i])
qed

lemma SkipList_new_result:
  assumes host: "host_aligned new_char"
  shows "SkipList_new new_char sizeof_Node w cmp k0 r0 = Inl OutOfMemory \<or>
     (\<exists>w' sl. SkipList_new new_char sizeof_Node w cmp k0 r0 = Inr (w', sl) \<and>
        sl_inv sl (replicate kMaxHeight []) \<and> compare_fn sl = cmp)"
proof -
  from NewNode_result [OF host, of sizeof_Node w "[]" k0 kMaxHeight]
  show ?thesis
  proof
    assume "NewNode new_char sizeof_Node w [] k0 kMaxHeight = Inl OutOfMemory"
    then show ?thesis by (simp add: SkipList_new_def)
  next
    assume "\<exists>w'. NewNode new_char sizeof_Node w [] k0 kMaxHeight =
        Inr (w', [] @ [\<lparr>Node_key = k0, Node_next = replicate kMaxHeight None\<rparr>], length [])"
    then obtain w' where nn: "NewNode new_char sizeof_Node w [] k0 kMaxHeight =
        Inr (w', [\<lparr>Node_key = k0, Node_next = replicate kMaxHeight None\<rparr>], 0)"
      by auto
    let ?sl = "\<lparr>compare_fn = cmp,
        nodes = [\<lparr>Node_key = k0, Node_next = replicate kMaxHeight (Some None)\<rparr>],
        head = 0, max_height = 1, rnd = r0\<rparr>"
    have r: "SkipList_new new_char sizeof_Node w cmp k0 r0 = Inr (w', ?sl)"
      using SkipList_init_loop_result [of 0 k0]
      by (simp add: SkipList_new_def nn)
    have "sl_inv ?sl (replicate kMaxHeight [])"
      by (simp add: sl_inv_def Node_Next_def has_slot_def kMaxHeight_def)
    then show ?thesis using r by simp
  qed
qed

subsection \<open>A run of inserts\<close>

lemma Insert_all_result:
  assumes host: "host_aligned new_char"
  shows "sl_inv sl cs \<Longrightarrow> comparator_ok (compare_fn sl) \<Longrightarrow> cmp_distinct (compare_fn sl) ks \<Longrightarrow>
    (\<forall>k \<in> set ks. \<forall>a \<in> set (map (\<lambda>y. Node_key (nodes sl ! y)) (cs ! 0)). compare_fn sl k a \<noteq> 0) \<Longrightarrow>
    Insert_all new_char rnd_next sizeof_Node w sl ks = Some (Inl OutOfMemory) \<or>
    (\<exists>w' sl' cs'. Insert_all new_char rnd_next sizeof_Node w sl ks = Some (Inr (w', sl')) \<and>
       sl_inv sl' cs' \<and> compare_fn sl' = compare_fn sl \<and>
       set (map (\<lambda>y. Node_key (nodes sl' ! y)) (cs' ! 0)) =
         set ks \<union> set (map (\<lambda>y. Node_key (nodes sl ! y)) (cs ! 0)))"
proof (induction ks arbitrary: w sl cs)
  case Nil
  then show ?case by auto
next
  case (Cons k ks)
  have fresh: "\<forall>y \<in> set (cs ! 0). compare_fn sl k (Node_key (nodes sl ! y)) \<noteq> 0"
    using Cons.prems(4) by simp
  from Insert_result [OF Cons.prems(1,2) fresh host, of rnd_next sizeof_Node w]
  show ?case
  proof
    assume "Insert new_char rnd_next sizeof_Node w sl k = Some (Inl OutOfMemory)"
    then show ?thesis by simp
  next
    assume "\<exists>w' sl' cs'. Insert new_char rnd_next sizeof_Node w sl k = Some (Inr (w', sl')) \<and>
        sl_inv sl' cs' \<and> compare_fn sl' = compare_fn sl \<and>
        set (map (\<lambda>y. Node_key (nodes sl' ! y)) (cs' ! 0)) =
          insert k (set (map (\<lambda>y. Node_key (nodes sl ! y)) (cs ! 0)))"
    then obtain w1 sl1 cs1 where
      i: "Insert new_char rnd_next sizeof_Node w sl k = Some (Inr (w1, sl1))" and
      inv1: "sl_inv sl1 cs1" and cf: "compare_fn sl1 = compare_fn sl" and
      ks1: "set (map (\<lambda>y. Node_key (nodes sl1 ! y)) (cs1 ! 0)) =
          insert k (set (map (\<lambda>y. Node_key (nodes sl ! y)) (cs ! 0)))"
      by blast
    have c1: "comparator_ok (compare_fn sl1)" using Cons.prems(2) cf by simp
    have d1: "cmp_distinct (compare_fn sl1) ks" using Cons.prems(3) cf by simp
    have "\<forall>k' \<in> set ks. compare_fn sl k' k \<noteq> 0"
      using Cons.prems(3) cmp_sym [OF Cons.prems(2)] by auto
    then have f1: "\<forall>k' \<in> set ks. \<forall>a \<in> set (map (\<lambda>y. Node_key (nodes sl1 ! y)) (cs1 ! 0)).
        compare_fn sl1 k' a \<noteq> 0"
      using Cons.prems(4) unfolding ks1 cf by simp
    have step: "Insert_all new_char rnd_next sizeof_Node w sl (k # ks) =
        Insert_all new_char rnd_next sizeof_Node w1 sl1 ks"
      by (simp add: i)
    from Cons.IH [OF inv1 c1 d1 f1, of w1]
    show ?thesis
    proof
      assume "Insert_all new_char rnd_next sizeof_Node w1 sl1 ks = Some (Inl OutOfMemory)"
      then show ?thesis unfolding step by simp
    next
      assume "\<exists>w' sl' cs'. Insert_all new_char rnd_next sizeof_Node w1 sl1 ks = Some (Inr (w', sl')) \<and>
        sl_inv sl' cs' \<and> compare_fn sl' = compare_fn sl1 \<and>
        set (map (\<lambda>y. Node_key (nodes sl' ! y)) (cs' ! 0)) =
          set ks \<union> set (map (\<lambda>y. Node_key (nodes sl1 ! y)) (cs1 ! 0))"
      then obtain w2 sl2 cs2 where
        r: "Insert_all new_char rnd_next sizeof_Node w1 sl1 ks = Some (Inr (w2, sl2))"
          "sl_inv sl2 cs2" "compare_fn sl2 = compare_fn sl1"
          "set (map (\<lambda>y. Node_key (nodes sl2 ! y)) (cs2 ! 0)) =
            set ks \<union> set (map (\<lambda>y. Node_key (nodes sl1 ! y)) (cs1 ! 0))"
        by blast
      have "set (map (\<lambda>y. Node_key (nodes sl2 ! y)) (cs2 ! 0)) =
          set (k # ks) \<union> set (map (\<lambda>y. Node_key (nodes sl ! y)) (cs ! 0))"
        unfolding r(4) ks1 by auto
      moreover have "Insert_all new_char rnd_next sizeof_Node w sl (k # ks) = Some (Inr (w2, sl2))"
        unfolding step by (rule r(1))
      moreover have "compare_fn sl2 = compare_fn sl" using r(3) cf by simp
      ultimately show ?thesis using r(2) by blast
    qed
  qed
qed

lemma build_result:
  assumes c: "comparator_ok cmp" and d: "cmp_distinct cmp ks" and host: "host_aligned new_char"
  shows "build new_char rnd_next sizeof_Node w cmp k0 r0 ks = Some (Inl OutOfMemory) \<or>
    (\<exists>w' sl cs. build new_char rnd_next sizeof_Node w cmp k0 r0 ks = Some (Inr (w', sl)) \<and>
       sl_inv sl cs \<and> compare_fn sl = cmp \<and>
       set (map (\<lambda>y. Node_key (nodes sl ! y)) (cs ! 0)) = set ks)"
proof -
  from SkipList_new_result [OF host, of sizeof_Node w cmp k0 r0]
  show ?thesis
  proof
    assume "SkipList_new new_char sizeof_Node w cmp k0 r0 = Inl OutOfMemory"
    then show ?thesis by (simp add: build_def)
  next
    assume "\<exists>w' sl. SkipList_new new_char sizeof_Node w cmp k0 r0 = Inr (w', sl) \<and>
        sl_inv sl (replicate kMaxHeight []) \<and> compare_fn sl = cmp"
    then obtain w0 sl0 where n: "SkipList_new new_char sizeof_Node w cmp k0 r0 = Inr (w0, sl0)"
      and inv0: "sl_inv sl0 (replicate kMaxHeight [])" and cf: "compare_fn sl0 = cmp"
      by blast
    have b: "build new_char rnd_next sizeof_Node w cmp k0 r0 ks =
        Insert_all new_char rnd_next sizeof_Node w0 sl0 ks"
      by (simp add: build_def n)
    have e: "replicate kMaxHeight [] ! 0 = ([] :: nat list)" by (simp add: kMaxHeight_def)
    have c0: "comparator_ok (compare_fn sl0)" using c cf by simp
    have d0: "cmp_distinct (compare_fn sl0) ks" using d cf by simp
    have f0: "\<forall>k \<in> set ks. \<forall>a \<in> set (map (\<lambda>y. Node_key (nodes sl0 ! y))
        (replicate kMaxHeight [] ! 0)). compare_fn sl0 k a \<noteq> 0"
      by (simp add: e)
    from Insert_all_result [OF host inv0 c0 d0 f0, of rnd_next sizeof_Node w0]
    show ?thesis unfolding b e cf by simp
  qed
qed

subsection \<open>The parameters of the concrete runs\<close>

lemma int_cmp_ok: "comparator_ok int_cmp"
  by (auto simp: comparator_ok_def int_cmp_def)

lemma push33_and7: "(8589934592 * x :: 64 word) AND 7 = 0"
proof -
  have "(8589934592 :: 64 word) * x = push_bit 33 x"
    by (simp add: push_bit_eq_mult mult.commute)
  moreover have "(push_bit 33 x :: 64 word) AND 7 = take_bit 3 (push_bit 33 x)"
    by (rule and7)
  ultimately show ?thesis by (simp add: take_bit_push_bit)
qed

lemma sample_new_char_aligned: "host_aligned sample_new_char"
  unfolding host_aligned_def
proof (intro allI impI)
  fix h n p
  assume a: "sample_new_char h n = Some p"
  show "p AND 7 = 0"
  proof (cases "n \<le> 4294967296")
    case True
    with a have "8589934592 * (1 + of_nat (length h)) = p"
      by (simp only: sample_new_char_def if_True option.inject)
    then show ?thesis
      using push33_and7 [of "1 + of_nat (length h)"] by (simp only:)
  next
    case False
    with a show ?thesis by (simp add: sample_new_char_def)
  qed
qed





subsection \<open>The search for the last node before a key\<close>

lemma prefix_nth_cases:
  "j \<le> length lo \<Longrightarrow> (x0 # lo) ! j = x0 \<or> (x0 # lo) ! j \<in> set lo"
  by (cases j) simp_all

lemma FindLT_walk:
  assumes ch: "level_chain (nodes sl) L (head sl) ys"
    and lo: "lo = takeWhile (\<lambda>y. compare_fn sl (Node_key (nodes sl ! y)) k < 0) ys"
    and j: "j \<le> length lo"
  shows "FindLessThan_loop sl k ((head sl # lo) ! j) L =
     (if L = 0 then Some (Inr (last (head sl # lo)))
      else FindLessThan_loop sl k (last (head sl # lo)) (L - 1))"
  using j
proof (induction "length lo - j" arbitrary: j)
  case 0
  then have jl: "j = length lo" by simp
  have x: "(head sl # lo) ! j = last (head sl # lo)"
    using jl by (simp add: last_conv_nth nth_Cons')
  let ?x = "last (head sl # lo)"
  have le: "length lo \<le> length ys" using lo by (simp add: length_takeWhile_le)
  have xc: "?x = head sl \<or> (?x \<in> set ys \<and> compare_fn sl (Node_key (nodes sl ! ?x)) k < 0)"
    unfolding lo by (rule last_Cons_takeWhile)
  have g1: "?x = head sl \<or> ?x < length (nodes sl)"
    using xc chain_in_store [OF ch, of ?x] by auto
  have g2: "?x = head sl \<or> compare_fn sl (Node_key (nodes sl ! ?x)) k < 0"
    using xc by auto
  have nx: "Node_Next (nodes sl) ?x L =
      Inr (if length lo < length ys then Some (ys ! length lo) else None)"
    using chain_nth [OF ch le] takeWhile_prefix_nth [of "length lo" _ ys "head sl"] x jl lo
    by simp
  show ?case
  proof (cases "length lo < length ys")
    case True
    then have "ys ! length lo \<in> set (head sl # ys)" by simp
    then have st: "ys ! length lo < length (nodes sl)" by (rule chain_in_store [OF ch])
    have nb: "\<not> compare_fn sl (Node_key (nodes sl ! (ys ! length lo))) k < 0"
      using first_not_below [of "\<lambda>y. compare_fn sl (Node_key (nodes sl ! y)) k < 0" ys] True lo
      by simp
    have nx': "Node_Next (nodes sl) ?x L = Inr (Some (ys ! length lo))"
      using nx True by simp
    show ?thesis
      unfolding x
      by (subst FindLessThan_loop.simps) (use g1 g2 st nb in \<open>simp add: nx' del: last.simps\<close>)
  next
    case False
    then have nx': "Node_Next (nodes sl) ?x L = Inr None"
      using nx by simp
    show ?thesis
      unfolding x
      by (subst FindLessThan_loop.simps) (use g1 g2 in \<open>simp add: nx' del: last.simps\<close>)
  qed
next
  case (Suc d)
  then have jl: "j < length lo" by simp
  then have jy: "j < length ys" using lo length_takeWhile_le [of _ ys] by (simp add: less_le_trans)
  let ?x = "(head sl # lo) ! j"
  have xj: "?x = (head sl # ys) ! j"
    using takeWhile_prefix_nth [of j _ ys "head sl"] jl lo by simp
  have "?x = head sl \<or> ?x \<in> set lo"
    using jl by (intro prefix_nth_cases) simp
  then have xc: "?x = head sl \<or> (?x \<in> set ys \<and> compare_fn sl (Node_key (nodes sl ! ?x)) k < 0)"
    unfolding lo by (auto dest: set_takeWhileD)
  have g1: "?x = head sl \<or> ?x < length (nodes sl)"
    using xc chain_in_store [OF ch, of ?x] by auto
  have g2: "?x = head sl \<or> compare_fn sl (Node_key (nodes sl ! ?x)) k < 0"
    using xc by auto
  have nx: "Node_Next (nodes sl) ?x L = Inr (Some (ys ! j))"
    using chain_nth [OF ch, of j] jy xj by simp
  have "ys ! j \<in> set (head sl # ys)" using jy by simp
  then have st: "ys ! j < length (nodes sl)" by (rule chain_in_store [OF ch])
  have bl: "compare_fn sl (Node_key (nodes sl ! (ys ! j))) k < 0"
    using takeWhile_holds [of j "\<lambda>y. compare_fn sl (Node_key (nodes sl ! y)) k < 0" ys] jl lo
    by simp
  have nxt: "lo ! j = ys ! j"
    using jl lo by (simp add: takeWhile_nth)
  have "FindLessThan_loop sl k ?x L = FindLessThan_loop sl k (ys ! j) L"
    by (subst FindLessThan_loop.simps) (use g1 g2 st bl in \<open>simp add: nx\<close>)
  also have "ys ! j = (head sl # lo) ! Suc j" using nxt by simp
  also have "FindLessThan_loop sl k ((head sl # lo) ! Suc j) L =
     (if L = 0 then Some (Inr (last (head sl # lo)))
      else FindLessThan_loop sl k (last (head sl # lo)) (L - 1))"
    using Suc.hyps(2) jl by (intro Suc.hyps(1)) simp_all
  finally show ?case .
qed

lemma FindLT_level:
  assumes c: "comparator_ok (compare_fn sl)" and h: "head sl = 0"
    and ch: "level_chain (nodes sl) L 0 ys"
    and s: "sorted_wrt (\<lambda>a b. compare_fn sl a b < 0) (map (\<lambda>y. Node_key (nodes sl ! y)) ys)"
    and x: "x = 0 \<or> (x \<in> set ys \<and> compare_fn sl (Node_key (nodes sl ! x)) k < 0)"
  shows "FindLessThan_loop sl k x L =
     (if L = 0 then Some (Inr (pred_at sl k ys))
      else FindLessThan_loop sl k (pred_at sl k ys) (L - 1))"
proof -
  obtain j where j: "j \<le> length (before_key sl k ys)" "x = (0 # before_key sl k ys) ! j"
    using walk_start [OF c s x] by blast
  have ch': "level_chain (nodes sl) L (head sl) ys" using ch h by simp
  show ?thesis
    unfolding j(2) pred_at_def
    using FindLT_walk [OF ch' _ j(1), of k] by (simp add: before_key_def h)
qed

lemma FindLT_descend:
  assumes inv: "sl_inv sl cs" and c: "comparator_ok (compare_fn sl)"
  shows "L < kMaxHeight \<Longrightarrow>
    x = 0 \<or> (x \<in> set (cs ! L) \<and> compare_fn sl (Node_key (nodes sl ! x)) k < 0) \<Longrightarrow>
    FindLessThan_loop sl k x L = Some (Inr (pred_at sl k (cs ! 0)))"
proof (induction L arbitrary: x)
  case 0
  note lv = sl_inv_level [OF inv "0.prems"(1)]
  have h: "head sl = 0" using inv by (simp add: sl_inv_def)
  show ?case
    using FindLT_level [OF c h _ _ "0.prems"(2), where L = 0] lv by simp
next
  case (Suc L)
  note lv = sl_inv_level [OF inv Suc.prems(1)]
  have h: "head sl = 0" using inv by (simp add: sl_inv_def)
  have L: "L < kMaxHeight" using Suc.prems(1) by simp
  let ?p = "pred_at sl k (cs ! Suc L)"
  have step: "FindLessThan_loop sl k x (Suc L) = FindLessThan_loop sl k ?p L"
    using FindLT_level [OF c h _ _ Suc.prems(2), where L = "Suc L"] lv by simp
  have p: "?p = 0 \<or> (?p \<in> set (cs ! L) \<and> compare_fn sl (Node_key (nodes sl ! ?p)) k < 0)"
    using pred_at_cases [of sl k "cs ! Suc L"] lv by auto
  show ?case unfolding step by (rule Suc.IH [OF L p])
qed

lemma FindLessThan_result:
  assumes inv: "sl_inv sl cs" and c: "comparator_ok (compare_fn sl)"
  shows "FindLessThan sl k = Some (Inr (pred_at sl k (cs ! 0)))"
proof -
  from inv have h: "head sl = 0" "0 < max_height sl" "max_height sl \<le> kMaxHeight"
    by (simp_all add: sl_inv_def)
  then have L: "max_height sl - 1 < kMaxHeight" by simp
  show ?thesis
    using FindLT_descend [OF inv c L, of 0 k] h by (simp add: FindLessThan_def)
qed

subsection \<open>The search for the last node\<close>

lemma FindLast_walk:
  assumes ch: "level_chain (nodes sl) L x0 ys" and j: "j \<le> length ys"
  shows "FindLast_loop sl ((x0 # ys) ! j) L =
     (if L = 0 then Some (Inr (last (x0 # ys)))
      else FindLast_loop sl (last (x0 # ys)) (L - 1))"
  using j
proof (induction "length ys - j" arbitrary: j)
  case 0
  then have jl: "j = length ys" by simp
  have x: "(x0 # ys) ! j = last (x0 # ys)"
    using jl by (simp add: last_conv_nth nth_Cons')
  have nx: "Node_Next (nodes sl) (last (x0 # ys)) L = Inr None"
    by (rule chain_last [OF ch])
  show ?case
    unfolding x
    by (subst FindLast_loop.simps) (simp add: nx del: last.simps)
next
  case (Suc d)
  then have jl: "j < length ys" by simp
  have nx: "Node_Next (nodes sl) ((x0 # ys) ! j) L = Inr (Some (ys ! j))"
    using chain_nth [OF ch, of j] jl by simp
  have "FindLast_loop sl ((x0 # ys) ! j) L = FindLast_loop sl ((x0 # ys) ! Suc j) L"
    by (subst FindLast_loop.simps) (simp add: nx)
  also have "\<dots> = (if L = 0 then Some (Inr (last (x0 # ys)))
      else FindLast_loop sl (last (x0 # ys)) (L - 1))"
    using Suc.hyps(2) jl by (intro Suc.hyps(1)) simp_all
  finally show ?case .
qed

lemma FindLast_level:
  assumes ch: "level_chain (nodes sl) L 0 ys" and x: "x = 0 \<or> x \<in> set ys"
  shows "FindLast_loop sl x L =
     (if L = 0 then Some (Inr (last (0 # ys))) else FindLast_loop sl (last (0 # ys)) (L - 1))"
proof -
  from x have "x \<in> set (0 # ys)" by auto
  then obtain j where j: "j < length (0 # ys)" "(0 # ys) ! j = x"
    by (meson in_set_conv_nth)
  then have "j \<le> length ys" by simp
  from FindLast_walk [OF ch this] show ?thesis unfolding j(2) .
qed

lemma FindLast_descend:
  assumes inv: "sl_inv sl cs"
  shows "L < kMaxHeight \<Longrightarrow> x = 0 \<or> x \<in> set (cs ! L) \<Longrightarrow>
    FindLast_loop sl x L = Some (Inr (last (0 # cs ! 0)))"
proof (induction L arbitrary: x)
  case 0
  note lv = sl_inv_level [OF inv "0.prems"(1)]
  have ch: "level_chain (nodes sl) 0 0 (cs ! 0)" using lv by simp
  show ?case
    using FindLast_level [OF ch "0.prems"(2)] by (simp del: last.simps)
next
  case (Suc L)
  note lv = sl_inv_level [OF inv Suc.prems(1)]
  have L: "L < kMaxHeight" using Suc.prems(1) by simp
  let ?p = "last (0 # cs ! Suc L)"
  have ch: "level_chain (nodes sl) (Suc L) 0 (cs ! Suc L)" using lv by simp
  have step: "FindLast_loop sl x (Suc L) = FindLast_loop sl ?p L"
    using FindLast_level [OF ch Suc.prems(2)] by (simp del: last.simps)
  have "?p = 0 \<or> ?p \<in> set (cs ! Suc L)"
    by (cases "cs ! Suc L = []") simp_all
  then have p: "?p = 0 \<or> ?p \<in> set (cs ! L)"
    using lv by auto
  show ?case unfolding step by (rule Suc.IH [OF L p])
qed

lemma FindLast_result:
  assumes inv: "sl_inv sl cs"
  shows "FindLast sl = Some (Inr (last (0 # cs ! 0)))"
proof -
  from inv have h: "head sl = 0" "0 < max_height sl" "max_height sl \<le> kMaxHeight"
    by (simp_all add: sl_inv_def)
  then have L: "max_height sl - 1 < kMaxHeight" by simp
  show ?thesis
    using FindLast_descend [OF inv L, of 0] h by (simp add: FindLast_def)
qed

subsection \<open>The iterator\<close>

lemma Iterator_Seek_result:
  assumes inv: "sl_inv sl cs" and c: "comparator_ok (compare_fn sl)"
  shows "\<exists>it'. Iterator_Seek sl it target = Some (Inr it') \<and>
     (node it' = None \<or> (\<exists>y \<in> set (cs ! 0). node it' = Some y))"
proof -
  have f: "FindGreaterOrEqual sl target None =
      Some (Inr (first_of (from_key sl target (cs ! 0)), None))"
    using FindGreaterOrEqual_result [OF inv c, of None target] by simp
  have "first_of (from_key sl target (cs ! 0)) = None \<or>
      (\<exists>y \<in> set (cs ! 0). first_of (from_key sl target (cs ! 0)) = Some y)"
  proof (cases "first_of (from_key sl target (cs ! 0))")
    case None
    then show ?thesis by simp
  next
    case (Some i)
    then have "i \<in> set (from_key sl target (cs ! 0))" by (rule first_of_in)
    then have "i \<in> set (cs ! 0)" using from_key_subset [of sl target "cs ! 0"] by blast
    then show ?thesis using Some by simp
  qed
  then show ?thesis by (simp add: Iterator_Seek_def f)
qed

lemma Iterator_SeekToFirst_result:
  assumes inv: "sl_inv sl cs"
  shows "\<exists>it'. Iterator_SeekToFirst sl it = Inr it' \<and>
     (node it' = None \<or> (\<exists>y \<in> set (cs ! 0). node it' = Some y))"
proof -
  have k0: "0 < kMaxHeight" by (simp add: kMaxHeight_def)
  note lv = sl_inv_level [OF inv k0]
  have h: "head sl = 0" using inv by (simp add: sl_inv_def)
  have ch: "level_chain (nodes sl) 0 0 (cs ! 0)" using lv by simp
  have "Node_Next (nodes sl) 0 0 = Inr (if 0 < length (cs ! 0) then Some (cs ! 0 ! 0) else None)"
    using chain_nth [OF ch, of 0] by simp
  then show ?thesis
    by (cases "cs ! 0") (simp_all add: Iterator_SeekToFirst_def h)
qed

lemma Iterator_SeekToLast_result:
  assumes inv: "sl_inv sl cs"
  shows "\<exists>it'. Iterator_SeekToLast sl it = Some (Inr it') \<and>
     (node it' = None \<or> (\<exists>y \<in> set (cs ! 0). node it' = Some y))"
proof -
  have h: "head sl = 0" using inv by (simp add: sl_inv_def)
  have f: "FindLast sl = Some (Inr (last (0 # cs ! 0)))"
    by (rule FindLast_result [OF inv])
  have "last (0 # cs ! 0) = 0 \<or> last (0 # cs ! 0) \<in> set (cs ! 0)"
    by (cases "cs ! 0 = []") simp_all
  then show ?thesis
    by (auto simp: Iterator_SeekToLast_def f h simp del: last.simps)
qed

lemma Iterator_Next_result:
  assumes inv: "sl_inv sl cs" and at: "node it = Some y" "y \<in> set (cs ! 0)"
  shows "\<exists>it'. Iterator_Next sl it = Inr it' \<and>
     (node it' = None \<or> (\<exists>y \<in> set (cs ! 0). node it' = Some y))"
proof -
  have k0: "0 < kMaxHeight" by (simp add: kMaxHeight_def)
  note lv = sl_inv_level [OF inv k0]
  have ch: "level_chain (nodes sl) 0 0 (cs ! 0)" using lv by simp
  from at(2) obtain i where i: "i < length (cs ! 0)" "cs ! 0 ! i = y"
    by (meson in_set_conv_nth)
  have nx: "Node_Next (nodes sl) y 0 =
      Inr (if Suc i < length (cs ! 0) then Some (cs ! 0 ! Suc i) else None)"
    using chain_nth [OF ch, of "Suc i"] i by simp
  show ?thesis
  proof (cases "Suc i < length (cs ! 0)")
    case True
    then have "cs ! 0 ! Suc i \<in> set (cs ! 0)" by simp
    then show ?thesis using True by (simp add: Iterator_Next_def Iterator_Valid_def at(1) nx)
  next
    case False
    then show ?thesis by (simp add: Iterator_Next_def Iterator_Valid_def at(1) nx)
  qed
qed

lemma Iterator_Prev_result:
  assumes inv: "sl_inv sl cs" and c: "comparator_ok (compare_fn sl)"
    and at: "node it = Some y" "y \<in> set (cs ! 0)"
  shows "\<exists>it'. Iterator_Prev sl it = Some (Inr it') \<and>
     (node it' = None \<or> (\<exists>y \<in> set (cs ! 0). node it' = Some y))"
proof -
  have k0: "0 < kMaxHeight" by (simp add: kMaxHeight_def)
  have h: "head sl = 0" using inv by (simp add: sl_inv_def)
  have st: "y < length (nodes sl)" by (rule level_nodes_lt [OF inv k0 at(2)])
  have f: "FindLessThan sl (Node_key (nodes sl ! y)) =
      Some (Inr (pred_at sl (Node_key (nodes sl ! y)) (cs ! 0)))"
    by (rule FindLessThan_result [OF inv c])
  have "pred_at sl (Node_key (nodes sl ! y)) (cs ! 0) = 0 \<or>
      pred_at sl (Node_key (nodes sl ! y)) (cs ! 0) \<in> set (cs ! 0)"
    using pred_at_cases [of sl "Node_key (nodes sl ! y)" "cs ! 0"] by blast
  then show ?thesis
    by (auto simp: Iterator_Prev_def Iterator_Valid_def at(1) st f h)
qed

lemma iter_step_result:
  assumes inv: "sl_inv sl cs" and c: "comparator_ok (compare_fn sl)"
    and at: "node it = None \<or> (\<exists>y \<in> set (cs ! 0). node it = Some y)"
  shows "(\<exists>it'. iter_step sl it op = Some (Inr it') \<and>
            (node it' = None \<or> (\<exists>y \<in> set (cs ! 0). node it' = Some y))) \<or>
         (iter_step sl it op = Some (Inl AssertionFailed) \<and> (op = Next \<or> op = Prev) \<and>
            \<not> Iterator_Valid it)"
proof (cases op)
  case (Seek target)
  then show ?thesis using Iterator_Seek_result [OF inv c, of it target] by simp
next
  case SeekToFirst
  then show ?thesis using Iterator_SeekToFirst_result [OF inv, of it] by simp
next
  case SeekToLast
  then show ?thesis using Iterator_SeekToLast_result [OF inv, of it] by simp
next
  case Next
  show ?thesis
  proof (cases "node it")
    case None
    then show ?thesis using Next by (simp add: Iterator_Next_def Iterator_Valid_def)
  next
    case (Some y)
    with at have "y \<in> set (cs ! 0)" by simp
    from Iterator_Next_result [OF inv Some this] show ?thesis using Next by simp
  qed
next
  case Prev
  show ?thesis
  proof (cases "node it")
    case None
    then show ?thesis using Prev by (simp add: Iterator_Prev_def Iterator_Valid_def)
  next
    case (Some y)
    with at have "y \<in> set (cs ! 0)" by simp
    from Iterator_Prev_result [OF inv c Some this] show ?thesis using Prev by simp
  qed
qed

lemma iter_run_result:
  assumes inv: "sl_inv sl cs" and c: "comparator_ok (compare_fn sl)"
  shows "node it = None \<or> (\<exists>y \<in> set (cs ! 0). node it = Some y) \<Longrightarrow>
    iter_run sl it ops = Some (Inl AssertionFailed) \<or>
    (\<exists>it'. iter_run sl it ops = Some (Inr it') \<and>
       (node it' = None \<or> (\<exists>y \<in> set (cs ! 0). node it' = Some y)))"
proof (induction ops arbitrary: it)
  case Nil
  then show ?case by simp
next
  case (Cons op ops)
  from iter_step_result [OF inv c Cons.prems, of op]
  show ?case
  proof
    assume "\<exists>it'. iter_step sl it op = Some (Inr it') \<and>
            (node it' = None \<or> (\<exists>y \<in> set (cs ! 0). node it' = Some y))"
    then obtain it' where s: "iter_step sl it op = Some (Inr it')"
      and at': "node it' = None \<or> (\<exists>y \<in> set (cs ! 0). node it' = Some y)"
      by blast
    from Cons.IH [OF at'] show ?thesis by (simp add: s)
  next
    assume "iter_step sl it op = Some (Inl AssertionFailed) \<and> (op = Next \<or> op = Prev) \<and>
            \<not> Iterator_Valid it"
    then show ?thesis by simp
  qed
qed

lemma at_level0_not_head:
  assumes inv: "sl_inv sl cs"
    and at: "node it = None \<or> (\<exists>y \<in> set (cs ! 0). node it = Some y)"
  shows "node it \<noteq> Some (head sl)"
proof -
  have k0: "0 < kMaxHeight" by (simp add: kMaxHeight_def)
  note lv = sl_inv_level [OF inv k0]
  have h: "head sl = 0" using inv by (simp add: sl_inv_def)
  show ?thesis using at lv h by auto
qed

text \<open>
  Claim C7. On a list built by the constructor and a run of inserts, every run of
  \<open>Seek\<close>, \<open>SeekToFirst\<close>, \<open>SeekToLast\<close>, \<open>Next\<close> and \<open>Prev\<close> from a fresh iterator ends.
  It ends either in a failed \<open>assert\<close> or in an iterator whose node is not the head
  and for which \<open>Valid()\<close> is the same as being at a node that is neither \<open>nullptr\<close> nor
  the head. From such an iterator every operation whose \<open>Valid()\<close> precondition holds
  returns without a failure, so the only runs that fail are those that call \<open>Next\<close> or
  \<open>Prev\<close> on an iterator that is not valid.
\<close>

theorem Iterator_never_at_head:
  assumes "comparator_ok cmp" and "cmp_distinct cmp ks" and "host_aligned new_char"
    and "build new_char rnd_next sizeof_Node w cmp k0 r0 ks = Some (Inr (w', sl))"
  shows "\<exists>r. iter_run sl Iterator_new ops = Some r \<and>
     (case r of
        Inl e \<Rightarrow> e = AssertionFailed
      | Inr it \<Rightarrow>
          node it \<noteq> Some (head sl) \<and>
          (Iterator_Valid it \<longleftrightarrow> node it \<noteq> None \<and> node it \<noteq> Some (head sl)) \<and>
          (\<forall>op. (op = Next \<or> op = Prev \<longrightarrow> Iterator_Valid it) \<longrightarrow>
                (\<exists>it'. iter_step sl it op = Some (Inr it'))))"
proof -
  from build_result [OF assms(1-3), of rnd_next sizeof_Node w k0 r0] assms(4)
  obtain cs where inv: "sl_inv sl cs" and cf: "compare_fn sl = cmp"
    by auto
  have c: "comparator_ok (compare_fn sl)" using assms(1) cf by simp
  have start: "node Iterator_new = None \<or> (\<exists>y \<in> set (cs ! 0). node Iterator_new = Some y)"
    by (simp add: Iterator_new_def)
  from iter_run_result [OF inv c start, of ops]
  show ?thesis
  proof
    assume "iter_run sl Iterator_new ops = Some (Inl AssertionFailed)"
    then show ?thesis by simp
  next
    assume "\<exists>it'. iter_run sl Iterator_new ops = Some (Inr it') \<and>
       (node it' = None \<or> (\<exists>y \<in> set (cs ! 0). node it' = Some y))"
    then obtain it where r: "iter_run sl Iterator_new ops = Some (Inr it)"
      and at: "node it = None \<or> (\<exists>y \<in> set (cs ! 0). node it = Some y)"
      by blast
    have 1: "node it \<noteq> Some (head sl)" by (rule at_level0_not_head [OF inv at])
    have 2: "Iterator_Valid it \<longleftrightarrow> node it \<noteq> None \<and> node it \<noteq> Some (head sl)"
      using 1 by (simp add: Iterator_Valid_def)
    have 3: "\<exists>it'. iter_step sl it op = Some (Inr it')"
      if "op = Next \<or> op = Prev \<longrightarrow> Iterator_Valid it" for op
      using iter_step_result [OF inv c at, of op] that by auto
    show ?thesis using r 1 2 3 by simp
  qed
qed

theorem Iterator_never_at_head_witness:
  "comparator_ok int_cmp \<and> cmp_distinct int_cmp [5, 1, 4, 2, 3] \<and>
   host_aligned sample_new_char \<and>
   (case build sample_new_char counter_next 16 ([], Arena_init) int_cmp 0 (0 :: nat)
           [5, 1, 4, 2, 3] of
      Some (Inr (w, sl)) \<Rightarrow>
        iter_run sl Iterator_new [Seek 3, Prev, Prev] = Some (Inr \<lparr>node = Some 2\<rparr>) \<and>
        iter_run sl Iterator_new [Seek 3, Prev, Prev, Prev] = Some (Inr \<lparr>node = None\<rparr>) \<and>
        iter_run sl Iterator_new [Seek 3, Prev, Prev, Prev, Prev] = Some (Inl AssertionFailed) \<and>
        iter_run sl Iterator_new [SeekToLast, Next] = Some (Inr \<lparr>node = None\<rparr>) \<and>
        (\<exists>r. iter_run sl Iterator_new [SeekToFirst, Next, Next, Prev] = Some r \<and>
           (case r of
              Inl e \<Rightarrow> e = AssertionFailed
            | Inr it \<Rightarrow>
                node it \<noteq> Some (head sl) \<and>
                (Iterator_Valid it \<longleftrightarrow> node it \<noteq> None \<and> node it \<noteq> Some (head sl)) \<and>
                (\<forall>op. (op = Next \<or> op = Prev \<longrightarrow> Iterator_Valid it) \<longrightarrow>
                      (\<exists>it'. iter_step sl it op = Some (Inr it')))))
    | _ \<Rightarrow> False)"
proof -
  have d: "cmp_distinct int_cmp [5, 1, 4, 2, 3]" by (simp add: int_cmp_def)
  have ev: "case build sample_new_char counter_next 16 ([], Arena_init) int_cmp 0 (0 :: nat)
           [5, 1, 4, 2, 3] of
      Some (Inr (w, sl)) \<Rightarrow>
        iter_run sl Iterator_new [Seek 3, Prev, Prev] = Some (Inr \<lparr>node = Some 2\<rparr>) \<and>
        iter_run sl Iterator_new [Seek 3, Prev, Prev, Prev] = Some (Inr \<lparr>node = None\<rparr>) \<and>
        iter_run sl Iterator_new [Seek 3, Prev, Prev, Prev, Prev] = Some (Inl AssertionFailed) \<and>
        iter_run sl Iterator_new [SeekToLast, Next] = Some (Inr \<lparr>node = None\<rparr>)
    | _ \<Rightarrow> False"
    by code_simp
  then obtain w sl where b: "build sample_new_char counter_next 16 ([], Arena_init) int_cmp 0
      (0 :: nat) [5, 1, 4, 2, 3] = Some (Inr (w, sl))"
    by (auto split: option.splits sum.splits)
  note t = Iterator_never_at_head [OF int_cmp_ok d sample_new_char_aligned b,
      of "[SeekToFirst, Next, Next, Prev]"]
  have e: "iter_run sl Iterator_new [Seek 3, Prev, Prev] = Some (Inr \<lparr>node = Some 2\<rparr>) \<and>
        iter_run sl Iterator_new [Seek 3, Prev, Prev, Prev] = Some (Inr \<lparr>node = None\<rparr>) \<and>
        iter_run sl Iterator_new [Seek 3, Prev, Prev, Prev, Prev] = Some (Inl AssertionFailed) \<and>
        iter_run sl Iterator_new [SeekToLast, Next] = Some (Inr \<lparr>node = None\<rparr>)"
    using ev unfolding b by simp
  show ?thesis
    unfolding b using int_cmp_ok d sample_new_char_aligned e t by simp
qed


end
